theory Spec2Isabelle
  imports Complex_Main "HOL-Library.Char_ord" "HOL-Library.List_Lexorder" "HOL-Library.Multiset"
begin

section \<open>Data model of \<^verbatim>\<open>pkg/updater/read.go\<close>\<close>

text \<open>
  Go values are read as follows. A \<^verbatim>\<open>string\<close> is a byte list, compared bytewise
  (\<^verbatim>\<open>Char_ord\<close>, \<^verbatim>\<open>List_Lexorder\<close>). A \<^verbatim>\<open>time.Time\<close> is the instant it denotes,
  in nanoseconds since the Unix epoch. A finite \<^verbatim>\<open>float64\<close> is the rational number it
  denotes; NaN, the infinities and the rounding of \<^verbatim>\<open>started/1000\<close> are outside the
  model. An \<^verbatim>\<open>int64\<close> is the integer it denotes, and the arithmetic that can leave the range
  wraps around.
\<close>

type_synonym Time = int

definition Nanosecond :: int where
  "Nanosecond = 1"

definition Millisecond :: int where
  "Millisecond = 1000000"

definition Second :: int where
  "Second = 1000000000"

definition timeUnix :: "int \<Rightarrow> int \<Rightarrow> Time" where
  \<comment> \<open>\<^verbatim>\<open>time.Unix(sec, nsec)\<close>; \<^verbatim>\<open>nsec\<close> may lie outside [0, 999999999].\<close>
  "timeUnix sec nsec = sec * Second + nsec"

definition After :: "Time \<Rightarrow> Time \<Rightarrow> bool" where
  \<comment> \<open>\<^verbatim>\<open>t.After(u)\<close>\<close>
  "After t u = (u < t)"

definition Unix :: "Time \<Rightarrow> int" where
  \<comment> \<open>\<^verbatim>\<open>t.Unix()\<close>: whole seconds since the epoch.\<close>
  "Unix t = t div Second"

definition int64_wrap :: "int \<Rightarrow> int" where
  \<comment> \<open>The result of an \<^verbatim>\<open>int64\<close> operation: the value modulo \<open>2^64\<close>, in the signed range.\<close>
  "int64_wrap x = (x + 2 ^ 63) mod 2 ^ 64 - 2 ^ 63"

definition int64_of :: "rat \<Rightarrow> int" where
  \<comment> \<open>The conversion \<^verbatim>\<open>int64(f)\<close>: the fraction is discarded (truncation toward zero). For a
      value outside the range of \<^verbatim>\<open>int64\<close> the language leaves the result to the
      implementation; the value here is the one the gc compiler gives on amd64, the
      smallest \<^verbatim>\<open>int64\<close>.\<close>
  "int64_of x =
     (let t = (if 0 \<le> x then \<lfloor>x\<rfloor> else \<lceil>x\<rceil>)
      in if - (2 ^ 63) \<le> t \<and> t < 2 ^ 63 then t else - (2 ^ 63))"

definition roundHalfEven :: "rat \<Rightarrow> int" where
  "roundHalfEven q =
     (let f = \<lfloor>q\<rfloor>; d = q - of_int f
      in if d < 1 / 2 then f else if 1 / 2 < d then f + 1 else if even f then f else f + 1)"

definition mathRemainder :: "rat \<Rightarrow> rat \<Rightarrow> rat" where
  \<comment> \<open>\<^verbatim>\<open>math.Remainder(x, y)\<close>, the IEEE 754 remainder: \<^verbatim>\<open>x - n*y\<close> with \<^verbatim>\<open>n\<close> the integer
      nearest to \<^verbatim>\<open>x/y\<close>, ties to even. Only called with \<^verbatim>\<open>y = 1000\<close>.\<close>
  "mathRemainder x y = x - y * of_int (roundHalfEven (x / y))"

record Column =
  Hint :: string
  Started :: rat

record InflatedColumn =
  Column :: Column
  Cells :: "(string \<times> string) list"

definition zeroColumn :: InflatedColumn where
  \<comment> \<open>The zero value that \<^verbatim>\<open>make([]InflatedColumn, n)\<close> fills the slice with.\<close>
  "zeroColumn = \<lparr>Column = \<lparr>Hint = [], Started = 0\<rparr>, Cells = []\<rparr>"

subsection \<open>Natural order of strings\<close>

definition isdigit :: "char \<Rightarrow> bool" where
  "isdigit c = (CHR ''0'' \<le> c \<and> c \<le> CHR ''9'')"

text \<open>
  Modelled from the spec: \<^verbatim>\<open>sortorder.NaturalLess\<close> belongs to the module
  \<^verbatim>\<open>github.com/fvbommel/sortorder\<close>, which is not among the sources. The spec calls it
  the string comparison that treats embedded digit runs numerically, under which
  \<^verbatim>\<open>build10\<close> ranks after \<^verbatim>\<open>build9\<close>. Here a digit sorts before any other byte, other
  bytes compare bytewise, a digit run compares by its value without leading zeros (the
  shorter run is smaller, runs of one length compare as strings), equal values by the
  number of leading zeros, and a proper prefix sorts first. \<^verbatim>\<open>hintStarted\<close> below takes
  the order as a parameter; this definition only instantiates it.
\<close>

function NaturalLess :: "string \<Rightarrow> string \<Rightarrow> bool" where
  "NaturalLess [] str2 = (str2 \<noteq> [])"
| "NaturalLess (c1 # r1) [] = False"
| "NaturalLess (c1 # r1) (c2 # r2) =
     (if isdigit c1 \<noteq> isdigit c2 then isdigit c1
      else if \<not> isdigit c1 then (if c1 \<noteq> c2 then c1 < c2 else NaturalLess r1 r2)
      else
        (let nz1 = dropWhile (\<lambda>c. c = CHR ''0'') (c1 # r1);
             nz2 = dropWhile (\<lambda>c. c = CHR ''0'') (c2 # r2);
             nr1 = takeWhile isdigit nz1;
             nr2 = takeWhile isdigit nz2;
             zeros1 = length (takeWhile (\<lambda>c. c = CHR ''0'') (c1 # r1));
             zeros2 = length (takeWhile (\<lambda>c. c = CHR ''0'') (c2 # r2))
         in if length nr1 \<noteq> length nr2 then length nr1 < length nr2
            else if nr1 \<noteq> nr2 then nr1 < nr2
            else if zeros1 \<noteq> zeros2 then zeros1 < zeros2
            else NaturalLess (dropWhile isdigit nz1) (dropWhile isdigit nz2)))"
  by pat_completeness auto
termination
proof (relation "measure (\<lambda>(s1, s2). length s1)", goal_cases)
  case 1
  show ?case by simp
next
  case (2 c1 r1 c2 r2)
  show ?case by simp
next
  case (3 c1 r1 c2 r2 nz1 nz2 nr1 nr2 zeros1 zeros2)
  have d: "isdigit c1" using 3 by simp
  have "length (dropWhile isdigit nz1) \<le> length r1"
  proof (cases "c1 = CHR ''0''")
    case True
    have "length (dropWhile isdigit (dropWhile (\<lambda>c. c = CHR ''0'') r1))
            \<le> length (dropWhile (\<lambda>c. c = CHR ''0'') r1)"
      by (rule length_dropWhile_le)
    also have "\<dots> \<le> length r1" by (rule length_dropWhile_le)
    finally show ?thesis using True 3 by simp
  next
    case False
    then show ?thesis using d 3 by (simp add: length_dropWhile_le)
  qed
  then show ?case by simp
qed

subsection \<open>Resume point\<close>

text \<open>
  The loop of \<^verbatim>\<open>hintStarted\<close>, with the loop index \<^verbatim>\<open>i\<close> and the two running maxima
  as state. \<open>lessFn\<close> stands for \<^verbatim>\<open>sortorder.NaturalLess\<close>.
\<close>

fun hintStarted_loop ::
  "(string \<Rightarrow> string \<Rightarrow> bool) \<Rightarrow> nat \<Rightarrow> InflatedColumn list \<Rightarrow> string \<times> rat \<Rightarrow> string \<times> rat" where
  "hintStarted_loop lessFn i [] (hint, started) = (hint, started)"
| "hintStarted_loop lessFn i (col # cols) (hint, started) =
     (let newHint = Hint (Column col);
          hint' = (if i = 0 \<or> lessFn hint newHint then newHint else hint);
          newStarted = Started (Column col);
          started' = (if i = 0 \<or> started < newStarted then newStarted else started)
      in hintStarted_loop lessFn (Suc i) cols (hint', started'))"

definition hintStarted :: "(string \<Rightarrow> string \<Rightarrow> bool) \<Rightarrow> InflatedColumn list \<Rightarrow> string \<times> Time" where
  "hintStarted lessFn cols =
     (let (hint, started) = hintStarted_loop lessFn 0 cols ([], 0);
          when = timeUnix (int64_of (started / 1000))
                   (int64_wrap (int64_of (mathRemainder started 1000)
                                  * (Millisecond div Nanosecond)))
      in (hint, when))"

text \<open>
  Lines 63 to 72 of \<^verbatim>\<open>gcsColumnReader\<close>: the resume hint and the stop time handed on to
  \<^verbatim>\<open>listBuilds\<close> and \<^verbatim>\<open>readColumns\<close>.
\<close>

definition gcsColumnReader_stop ::
  "(string \<Rightarrow> string \<Rightarrow> bool) \<Rightarrow> InflatedColumn list \<Rightarrow> Time \<Rightarrow> string \<times> Time" where
  "gcsColumnReader_stop lessFn oldCols stop =
     (let (since, newStop) = hintStarted lessFn oldCols
      in if After newStop stop then (since, newStop) else (since, stop))"

definition hintsOf :: "InflatedColumn list \<Rightarrow> string list" where
  \<comment> \<open>The hints of a column list, in order: what the loop reads as \<^verbatim>\<open>col.Column.Hint\<close>.\<close>
  "hintsOf cols = map (\<lambda>col. Hint (Column col)) cols"

subsection \<open>Name configuration\<close>

record TestNameConfig_NameElement =
  TargetConfig :: string
  TestProperty :: string

record TestNameConfig =
  NameFormat :: string
  NameElements :: "TestNameConfig_NameElement list"

record TestGroup_ColumnHeader =
  ConfigurationValue :: string

text \<open>
  The fields of \<^verbatim>\<open>configpb.TestGroup\<close> that \<^verbatim>\<open>read.go\<close> reads. The pointer
  \<^verbatim>\<open>TestNameConfig\<close> may be nil: \<open>None\<close>.
\<close>

record TestGroup =
  Name :: string
  GcsPrefix :: string
  ColumnHeader :: "TestGroup_ColumnHeader list"
  TestNameConfig :: "TestNameConfig option"
  DisableMergedStatus :: bool
  DisableProwjobAnalysis :: bool
  BuildOverrideStrftime :: string
  ShortTextMetric :: string
  UserProperty :: string

record groupOptions =
  merge :: bool
  analyzeProwJob :: bool
  addCellID :: bool
  metricKey :: string
  userKey :: string

definition makeOptions :: "TestGroup \<Rightarrow> groupOptions" where
  "makeOptions grp =
     \<lparr>merge = \<not> DisableMergedStatus grp,
      analyzeProwJob = \<not> DisableProwjobAnalysis grp,
      addCellID = (BuildOverrideStrftime grp \<noteq> []),
      metricKey = ShortTextMetric grp,
      userKey = UserProperty grp\<rparr>"

definition testsName :: string where
  "testsName = ''Tests name''"

definition jobName :: string where
  "jobName = ''Job name''"

record nameConfig =
  format :: string
  parts :: "string list"
  multiJob :: bool

fun firstFilled :: "string list \<Rightarrow> string" where
  "firstFilled [] = []"
| "firstFilled (s # strs) = (if s \<noteq> [] then s else firstFilled strs)"

definition convertNameConfig :: "TestNameConfig option \<Rightarrow> nameConfig" where
  "convertNameConfig tnc =
     (case tnc of
        None \<Rightarrow> \<lparr>format = ''%s'', parts = [testsName], multiJob = False\<rparr>
      | Some t \<Rightarrow>
          \<lparr>format = NameFormat t,
           parts = map (\<lambda>e. firstFilled [TargetConfig e, TestProperty e]) (NameElements t),
           multiJob = False\<rparr>)"

definition ensureJobName :: "nameConfig \<Rightarrow> nameConfig" where
  \<comment> \<open>The loop returns at the first part equal to \<^verbatim>\<open>jobName\<close>, leaving the value as it is.\<close>
  "ensureJobName nc =
     (if jobName \<in> set (parts nc) then nc
      else nc\<lparr>format := ''%s.'' @ format nc, parts := [jobName] @ parts nc\<rparr>)"

definition stringsHasPrefix :: "string \<Rightarrow> string \<Rightarrow> bool" where
  \<comment> \<open>\<^verbatim>\<open>strings.HasPrefix(s, prefix)\<close>\<close>
  "stringsHasPrefix s pre = (take (length pre) s = pre)"

definition stringsContains :: "string \<Rightarrow> string \<Rightarrow> bool" where
  \<comment> \<open>\<^verbatim>\<open>strings.Contains(s, substr)\<close>\<close>
  "stringsContains s substr = list_ex (\<lambda>n. stringsHasPrefix (drop n s) substr) [0..<Suc (length s)]"

definition makeNameConfig :: "TestGroup \<Rightarrow> nameConfig" where
  "makeNameConfig grp =
     (let nameCfg = convertNameConfig (TestNameConfig grp)
      in if stringsContains (GcsPrefix grp) '',''
         then ensureJobName (nameCfg\<lparr>multiJob := True\<rparr>)
         else nameCfg)"

section \<open>Reading one build\<close>

subsection \<open>Errors, paths and builds\<close>

text \<open>
  A Go \<^verbatim>\<open>error\<close> is a value of the datatype below: the sentinel \<^verbatim>\<open>io.EOF\<close>, the error of
  a finished context, a storage error of type \<^verbatim>\<open>gcs.Error\<close> with the path it is bound to,
  any other error (\<^verbatim>\<open>errors.New\<close>), and \<^verbatim>\<open>fmt.Errorf("...: %w", err)\<close> as \<open>Wrap\<close> with the
  text put in front. A panic is recorded as an error value too. A nil error is \<open>None\<close>
  of \<open>error option\<close>.
\<close>

datatype ctxError = Canceled | DeadlineExceeded

record gcsPath =
  bucket :: string
  object :: string

definition pathString :: "gcsPath \<Rightarrow> string" where
  \<comment> \<open>\<^verbatim>\<open>Path.String()\<close>: the URL \<^verbatim>\<open>gs://bucket/object\<close>.\<close>
  "pathString p = ''gs://'' @ bucket p @ ''/'' @ object p"

datatype error =
    EOF
  | CtxErr ctxError
  | GcsError gcsPath
  | ErrorsNew string
  | Wrap string error
  | Panic string

fun errorsIs :: "error \<Rightarrow> error \<Rightarrow> bool" where
  \<comment> \<open>\<^verbatim>\<open>errors.Is(err, target)\<close>: the chain of wrapped errors holds the target.\<close>
  "errorsIs (Wrap msg err) target = (Wrap msg err = target \<or> errorsIs err target)"
| "errorsIs err target = (err = target)"

fun errorsAs_gcsError :: "error \<Rightarrow> gcsPath option" where
  \<comment> \<open>\<^verbatim>\<open>errors.As(err, &gcsError)\<close>: the first \<^verbatim>\<open>gcs.Error\<close> of the chain, if any.\<close>
  "errorsAs_gcsError (GcsError p) = Some p"
| "errorsAs_gcsError (Wrap msg err) = errorsAs_gcsError err"
| "errorsAs_gcsError err = None"

definition stringsTrimPrefix :: "string \<Rightarrow> string \<Rightarrow> string" where
  \<comment> \<open>\<^verbatim>\<open>strings.TrimPrefix(s, prefix)\<close>: \<^verbatim>\<open>s\<close> itself when it does not start with the prefix.\<close>
  "stringsTrimPrefix s pre = (if stringsHasPrefix s pre then drop (length pre) s else s)"

definition pathBase :: "string \<Rightarrow> string" where
  \<comment> \<open>\<^verbatim>\<open>path.Base\<close>: the last element of the path, trailing slashes removed first.\<close>
  "pathBase p =
     (if p = [] then ''.''
      else (let stripped = rev (dropWhile (\<lambda>c. c = CHR ''/'') (rev p));
                last_elem = rev (takeWhile (\<lambda>c. c \<noteq> CHR ''/'') (rev stripped))
            in if last_elem = [] then ''/'' else last_elem))"

text \<open>
  Modelled from the spec: \<^verbatim>\<open>gcs.SuitesMeta\<close> and the method \<^verbatim>\<open>Truncate\<close> of its field
  \<^verbatim>\<open>Suites\<close> are declared in packages that are not among the sources. The spec describes
  a suite result as one decoded test-results file, a collection of test case outcomes
  capped at a maximum of 1000 cases per file, extra cases dropped without an error. So a
  suite is the list of its cases and \<^verbatim>\<open>Truncate(max)\<close> keeps the first \<^verbatim>\<open>max\<close> of them.
\<close>

record SuitesMeta =
  Suites :: "string list"
  SuitesPath :: string

definition Truncate :: "nat \<Rightarrow> SuitesMeta \<Rightarrow> SuitesMeta" where
  "Truncate n suite = suite\<lparr>Suites := take n (Suites suite)\<rparr>"

text \<open>
  A \<^verbatim>\<open>gcs.Build\<close>, with what its methods \<^verbatim>\<open>Job()\<close> and \<^verbatim>\<open>Build()\<close> return. It prints
  (\<^verbatim>\<open>%s\<close>) as its path.
\<close>

record Build =
  Path :: gcsPath
  Job :: string
  BuildID :: string

subsection \<open>The storage client, as seen from one build\<close>

text \<open>
  What a download returns: a value with a nil error, a nil value with a nil error, or an
  error.
\<close>

datatype 'a fetched = Fetched 'a | NilNil | Failed error

text \<open>
  \<^verbatim>\<open>readSuites\<close> and \<^verbatim>\<open>readResult\<close> start goroutines and collect what they send in a
  \<^verbatim>\<open>select\<close> loop. The order in which the loop sees things is not fixed by the program: it
  is part of the input. A \<open>suitesEvent\<close> is one turn of the loop of \<^verbatim>\<open>readSuites\<close>: the
  context is done, the listing or the downloading goroutine sends its error on \<^verbatim>\<open>ec\<close>, a
  suite arrives on \<^verbatim>\<open>suitesChan\<close>, or that channel reads as closed. A \<open>branch\<close> is one of
  the four goroutines of \<^verbatim>\<open>readResult\<close>.
\<close>

datatype suitesEvent = CtxDone | ListReport | DownloadReport | SuiteRecv SuitesMeta | SuitesClosed

datatype branch = PodInfoB | StartedB | FinishedB | SuitesB

text \<open>
  Everything outside the program that decides the read of one build: what
  \<^verbatim>\<open>build.PodInfo\<close>, \<^verbatim>\<open>build.Started\<close>, \<^verbatim>\<open>build.Finished\<close>, \<^verbatim>\<open>build.Artifacts\<close> and
  \<^verbatim>\<open>build.Suites\<close> return (the decoded payloads are kept as strings), the turns of the
  loop of \<^verbatim>\<open>readSuites\<close>, the order in which the four branches of \<^verbatim>\<open>readResult\<close> get to
  send on \<^verbatim>\<open>ec\<close>, after how many receipts the collecting loop finds the context done
  (\<open>None\<close>: never), and the error of that context.
\<close>

record downloads =
  fetchPodInfo :: "string fetched"
  fetchStarted :: "string fetched"
  fetchFinished :: "string fetched"
  listArtifacts :: "error option"
  downloadSuites :: "error option"
  suitesEvents :: "suitesEvent list"
  arrival :: "branch list"
  deadline :: "nat option"
  ctxErr :: ctxError

subsection \<open>\<^verbatim>\<open>readSuites\<close>\<close>

text \<open>
  The loop \<^verbatim>\<open>for work > 0\<close> with \<^verbatim>\<open>work\<close> and \<^verbatim>\<open>suites\<close> as state. When the events run
  out the goroutines are over and \<^verbatim>\<open>suitesChan\<close> has been closed by the deferred
  \<^verbatim>\<open>close\<close>, so the loop reads it as closed.
\<close>

fun readSuites_loop ::
  "downloads \<Rightarrow> nat \<Rightarrow> SuitesMeta list \<Rightarrow> suitesEvent list \<Rightarrow> error + SuitesMeta list" where
  "readSuites_loop d 0 suites evs = Inr suites"
| "readSuites_loop d (Suc work) suites [] = Inr suites"
| "readSuites_loop d (Suc work) suites (ev # evs) =
     (case ev of
        CtxDone \<Rightarrow> Inl (Wrap ''timeout: '' (CtxErr (ctxErr d)))
      | ListReport \<Rightarrow>
          (case listArtifacts d of
             Some err \<Rightarrow> Inl (Wrap ''list: '' err)
           | None \<Rightarrow> readSuites_loop d work suites evs)
      | DownloadReport \<Rightarrow>
          (case downloadSuites d of
             Some err \<Rightarrow> Inl (Wrap ''download: '' err)
           | None \<Rightarrow> readSuites_loop d work suites evs)
      | SuiteRecv suite \<Rightarrow> readSuites_loop d (Suc work) (suites @ [Truncate 1000 suite]) evs
      | SuitesClosed \<Rightarrow> Inr suites)"

definition readSuites :: "downloads \<Rightarrow> error + SuitesMeta list" where
  "readSuites d = readSuites_loop d 2 [] (suitesEvents d)"

definition received :: "suitesEvent list \<Rightarrow> SuitesMeta list" where
  \<comment> \<open>The suites that arrive on \<^verbatim>\<open>suitesChan\<close>, in order.\<close>
  "received evs = concat (map (\<lambda>ev. case ev of SuiteRecv s \<Rightarrow> [s] | _ \<Rightarrow> []) evs)"

subsection \<open>\<^verbatim>\<open>readResult\<close>\<close>

record gcsResult =
  podInfo :: string
  started :: string
  finished :: string
  suites :: "SuitesMeta list"
  job :: string
  build :: string
  malformed :: "string list"

definition newResult :: "Build \<Rightarrow> gcsResult" where
  \<comment> \<open>\<^verbatim>\<open>gcsResult{job: build.Job(), build: build.Build()}\<close>\<close>
  "newResult b =
     \<lparr>podInfo = [], started = [], finished = [], suites = [],
      job = Job b, build = BuildID b, malformed = []\<rparr>"

definition addMalformed :: "string \<Rightarrow> gcsResult \<Rightarrow> gcsResult" where
  "addMalformed s r = r\<lparr>malformed := malformed r @ [s]\<rparr>"

text \<open>
  The body of each of the four goroutines up to its \<^verbatim>\<open>select\<close>: the result as the
  goroutine leaves it, and the error it then offers on \<^verbatim>\<open>ec\<close>. \<^verbatim>\<open>*s\<close> and \<^verbatim>\<open>*f\<close> panic on a
  nil pointer; the pod info is tested against nil first.
\<close>

fun download :: "downloads \<Rightarrow> Build \<Rightarrow> branch \<Rightarrow> gcsResult \<Rightarrow> gcsResult \<times> error option" where
  "download d b PodInfoB r =
     (case fetchPodInfo d of
        Failed err \<Rightarrow>
          if errorsIs err EOF then (addMalformed ''podinfo.json'' r, None)
          else (r, Some (Wrap ''podinfo: '' err))
      | Fetched info \<Rightarrow> (r\<lparr>podInfo := info\<rparr>, None)
      | NilNil \<Rightarrow> (r, None))"
| "download d b StartedB r =
     (case fetchStarted d of
        Failed err \<Rightarrow>
          if errorsIs err EOF then (addMalformed ''started.json'' r, None)
          else (r, Some (Wrap ''started: '' err))
      | Fetched s \<Rightarrow> (r\<lparr>started := s\<rparr>, None)
      | NilNil \<Rightarrow> (r, Some (Panic ''invalid memory address or nil pointer dereference'')))"
| "download d b FinishedB r =
     (case fetchFinished d of
        Failed err \<Rightarrow>
          if errorsIs err EOF then (addMalformed ''finished.json'' r, None)
          else (r, Some (Wrap ''finished: '' err))
      | Fetched f \<Rightarrow> (r\<lparr>finished := f\<rparr>, None)
      | NilNil \<Rightarrow> (r, Some (Panic ''invalid memory address or nil pointer dereference'')))"
| "download d b SuitesB r =
     (case readSuites d of
        Inl err \<Rightarrow>
          (case errorsAs_gcsError err of
             Some p \<Rightarrow>
               (addMalformed (stringsTrimPrefix (pathString p) (pathString (Path b)))
                  (r\<lparr>suites := []\<rparr>), None)
           | None \<Rightarrow> (r\<lparr>suites := []\<rparr>, Some (Wrap ''suites: '' err)))
      | Inr ss \<Rightarrow> (r\<lparr>suites := ss\<rparr>, None))"

definition report :: "downloads \<Rightarrow> Build \<Rightarrow> branch \<Rightarrow> error option" where
  \<comment> \<open>What a branch offers on \<^verbatim>\<open>ec\<close>; it does not depend on the result so far.\<close>
  "report d b br = snd (download d b br (newResult b))"

text \<open>
  The order in which the collecting loop receives from the branches: each branch once,
  those the schedule names first (a repeated name counts once), the others in the order
  of the \<^verbatim>\<open>go\<close> statements. Every order of the four is the value of some schedule.
\<close>

definition arrivalOrder :: "downloads \<Rightarrow> branch list" where
  "arrivalOrder d = rev (remdups (rev (arrival d @ [PodInfoB, StartedB, FinishedB, SuitesB])))"

text \<open>
  The loop \<^verbatim>\<open>for ; work > 0; work--\<close>, one turn for each branch, \<^verbatim>\<open>k\<close> counting the values
  received. A branch writes its part of the result before it sends, so its writes are
  applied when its value is received; the branches write different fields, and the
  malformed list is sorted at the end, so the order of the writes does not show.
\<close>

fun readResult_collect ::
  "downloads \<Rightarrow> Build \<Rightarrow> nat \<Rightarrow> gcsResult \<Rightarrow> branch list \<Rightarrow> error + gcsResult" where
  "readResult_collect d b k r [] = Inr r"
| "readResult_collect d b k r (br # brs) =
     (if deadline d = Some k then Inl (Wrap ''timeout: '' (CtxErr (ctxErr d)))
      else (case download d b br r of
              (r', Some err) \<Rightarrow> Inl err
            | (r', None) \<Rightarrow> readResult_collect d b (Suc k) r' brs))"

definition readResult :: "downloads \<Rightarrow> Build \<Rightarrow> error + gcsResult" where
  "readResult d b =
     (case readResult_collect d b 0 (newResult b) (arrivalOrder d) of
        Inl err \<Rightarrow> Inl err
      | Inr r \<Rightarrow> Inr (r\<lparr>malformed := sort (malformed r)\<rparr>))"

fun absent :: "'a fetched \<Rightarrow> bool" where
  \<comment> \<open>The download met the end of the stream: the artifact is not there.\<close>
  "absent (Failed err) = errorsIs err EOF"
| "absent x = False"

fun present :: "'a fetched \<Rightarrow> bool" where
  "present (Fetched x) = True"
| "present x = False"

subsection \<open>The body of a reader of \<^verbatim>\<open>readColumns\<close>\<close>

text \<open>
  \<^verbatim>\<open>convertResult\<close> is not among the sources: it is a parameter. Lines 162 to 185: read
  the build, convert the result, and wrap the error of either step.
\<close>

type_synonym converter =
  "nameConfig \<Rightarrow> string \<Rightarrow> string list \<Rightarrow> gcsResult \<Rightarrow> groupOptions \<Rightarrow> error + InflatedColumn"

definition readBuild ::
  "(Build \<Rightarrow> downloads) \<Rightarrow> converter \<Rightarrow> TestGroup \<Rightarrow> Build \<Rightarrow> error + InflatedColumn" where
  "readBuild client convertResult grp b =
     (case readResult (client b) b of
        Inl err \<Rightarrow> Inl (Wrap (''read '' @ pathString (Path b) @ '': '') err)
      | Inr result \<Rightarrow>
          (let id = pathBase (object (Path b));
               heads = map ConfigurationValue (ColumnHeader grp)
           in case convertResult (makeNameConfig grp) id heads result (makeOptions grp) of
                Inl err \<Rightarrow> Inl (Wrap (''convert '' @ pathString (Path b) @ '': '') err)
              | Inr col \<Rightarrow> Inr col))"


section \<open>\<^verbatim>\<open>readColumns\<close>\<close>

subsection \<open>The state of a run\<close>

text \<open>
  \<^verbatim>\<open>readColumns\<close> starts one goroutine that hands out build indices (the dispatcher),
  \<^verbatim>\<open>concurrency\<close> readers, and one stop detector for every build found to have started
  before the stop time. What it returns depends on how these interleave, so a run is a
  state machine over the shared variables and the position of every goroutine, and the
  interleaving is an input: a list of actions, each the next move of one goroutine. An
  action that its goroutine cannot take in the current state leaves the state as it is,
  so every list of actions is a schedule.

  A reader is at its first \<^verbatim>\<open>select\<close> (\<open>Receiving\<close>), between the receipt of an index and
  the end of \<^verbatim>\<open>readResult\<close> and \<^verbatim>\<open>convertResult\<close> (\<open>Working\<close>), at a \<^verbatim>\<open>select\<close> that sends
  on \<^verbatim>\<open>ec\<close> (\<open>Reporting\<close>, with the value it sends), or it has returned: after its nil was
  received (\<open>Reported\<close>) or otherwise (\<open>Gone\<close>). The caller is before \<^verbatim>\<open>wg.Add(concurrency)\<close>
  (\<open>Spawning\<close>), in the loop that receives from \<^verbatim>\<open>ec\<close> (\<open>Draining\<close>), or past \<^verbatim>\<open>cancel()\<close>
  in \<^verbatim>\<open>wg.Wait()\<close> and \<^verbatim>\<open>stopWG.Wait()\<close> (\<open>Waiting\<close>).
\<close>

datatype worker = Receiving | Working nat | Reporting "error option" | Reported | Gone

datatype phase = Spawning | Draining | Waiting

text \<open>
  The moves. A number is the reader that moves, or for \<open>Lock\<close> the index whose detector
  takes \<^verbatim>\<open>maxLock\<close>.
\<close>

datatype action =
    ParentCancel
  | AddWorkers
  | Vend nat
  | DispatcherReturn
  | SeeClosed nat
  | Quit nat
  | Finish nat
  | Report nat
  | DrainDone
  | Cancel
  | Return
  | Lock nat
  | Signal
  | Unblock

text \<open>
  What does not change during a run: the builds after the cap, \<^verbatim>\<open>stop\<close> (line 103, the
  whole seconds of the stop time times 1000, an \<^verbatim>\<open>int64\<close> product that wraps around),
  \<^verbatim>\<open>concurrency\<close>, the outcome of reading and converting each build (\<open>readBuild\<close> above),
  and the error of the parent context should it end.
\<close>

record config =
  builds :: "Build list"
  stop :: int
  concurrency :: int
  readB :: "Build \<Rightarrow> error + InflatedColumn"
  parentErr :: ctxError

text \<open>
  The state: what \<^verbatim>\<open>readColumns\<close> has returned, if it has; where the caller is and its loop
  counter (the variable \<^verbatim>\<open>concurrency\<close> of the loop of line 220); whether the parent context is
  done and whether \<^verbatim>\<open>cancel()\<close> has been called; the counter of \<^verbatim>\<open>wg\<close>; whether the
  dispatcher is still running (the channel \<^verbatim>\<open>indices\<close> is closed once it is not) and its loop
  index; the readers; the detectors that wait for \<^verbatim>\<open>maxLock\<close> and the one that holds it at the
  \<^verbatim>\<open>select\<close> of line 197; \<^verbatim>\<open>maxIdx\<close> and \<^verbatim>\<open>cols\<close>. Four more fields record what happened and
  are read by no step: the number of goroutines started, the builds read, the indices
  converted, and the indices for which line 186 found the start before \<^verbatim>\<open>stop\<close>.
\<close>

record state =
  result :: "(error + InflatedColumn list) option"
  phase :: phase
  remaining :: int
  parentDone :: bool
  cancelled :: bool
  wg :: int
  dispatcher :: bool
  nextIdx :: nat
  workers :: "worker list"
  waiting :: "nat list"
  holder :: "nat option"
  maxIdx :: nat
  cols :: "InflatedColumn list"
  goroutines :: nat
  reads :: "Build list"
  converted :: "nat list"
  discovered :: "nat list"

subsection \<open>The steps\<close>

definition ctxDone :: "state \<Rightarrow> bool" where
  "ctxDone s = (parentDone s \<or> cancelled s)"

text \<open>Lines 210 to 212: \<^verbatim>\<open>if maxIdx > idx+1 { maxIdx = idx + 1 }\<close>.\<close>

definition shrink :: "nat \<Rightarrow> nat \<Rightarrow> nat" where
  "shrink idx m = (if idx + 1 < m then idx + 1 else m)"

text \<open>
  \<^verbatim>\<open>wg.Done()\<close>. A counter that goes negative panics, and a panic ends the process: the
  run is over.
\<close>

definition wgDone :: "state \<Rightarrow> state" where
  "wgDone s =
     (if wg s - 1 < 0
      then s\<lparr>result := Some (Inl (Panic ''sync: negative WaitGroup counter'')), wg := wg s - 1\<rparr>
      else s\<lparr>wg := wg s - 1\<rparr>)"

text \<open>
  Lines 140 to 218: \<^verbatim>\<open>wg.Add(concurrency)\<close>, which panics on a negative counter, and the
  \<^verbatim>\<open>go\<close> statements of the readers; the loop starts none when \<^verbatim>\<open>concurrency\<close> is negative.
\<close>

definition addWorkers :: "config \<Rightarrow> state \<Rightarrow> state" where
  "addWorkers cfg s =
     (if phase s \<noteq> Spawning then s
      else if wg s + concurrency cfg < 0
      then s\<lparr>result := Some (Inl (Panic ''sync: negative WaitGroup counter''))\<rparr>
      else s\<lparr>phase := Draining, wg := wg s + concurrency cfg,
             workers := replicate (nat (concurrency cfg)) Receiving,
             goroutines := goroutines s + nat (concurrency cfg)\<rparr>)"

text \<open>
  Line 129 meets line 151: the dispatcher sends its index to a reader that is receiving.
\<close>

definition vend :: "config \<Rightarrow> nat \<Rightarrow> state \<Rightarrow> state" where
  "vend cfg w s =
     (if dispatcher s \<and> nextIdx s < length (builds cfg)
         \<and> w < length (workers s) \<and> workers s ! w = Receiving
      then s\<lparr>nextIdx := Suc (nextIdx s), workers := (workers s)[w := Working (nextIdx s)]\<rparr>
      else s)"

text \<open>
  The dispatcher returns because its loop is over or by \<^verbatim>\<open>case <-ctx.Done()\<close>; the deferred
  calls close \<^verbatim>\<open>indices\<close> and call \<^verbatim>\<open>wg.Done()\<close>.
\<close>

definition dispatcherReturn :: "config \<Rightarrow> state \<Rightarrow> state" where
  "dispatcherReturn cfg s =
     (if dispatcher s \<and> (nextIdx s = length (builds cfg) \<or> ctxDone s)
      then wgDone (s\<lparr>dispatcher := False\<rparr>)
      else s)"

text \<open>Lines 151 to 155: a reader receives from the closed channel and goes on to send nil.\<close>

definition seeClosed :: "nat \<Rightarrow> state \<Rightarrow> state" where
  "seeClosed w s =
     (if \<not> dispatcher s \<and> w < length (workers s) \<and> workers s ! w = Receiving
      then s\<lparr>workers := (workers s)[w := Reporting None]\<rparr>
      else s)"

text \<open>A reader takes \<^verbatim>\<open>case <-ctx.Done()\<close> at either \<^verbatim>\<open>select\<close> and returns.\<close>

definition quit :: "nat \<Rightarrow> state \<Rightarrow> state" where
  "quit w s =
     (if ctxDone s \<and> w < length (workers s)
         \<and> (case workers s ! w of Receiving \<Rightarrow> True | Reporting eo \<Rightarrow> True | _ \<Rightarrow> False)
      then wgDone (s\<lparr>workers := (workers s)[w := Gone]\<rparr>)
      else s)"

text \<open>
  Lines 162 to 215: the reader has read and converted its build. On an error it goes on
  to send it. Otherwise, when the column started before \<^verbatim>\<open>stop\<close>, it starts a detector
  for its index; it stores the column at its index and receives again.
\<close>

definition finish :: "config \<Rightarrow> nat \<Rightarrow> state \<Rightarrow> state" where
  "finish cfg w s =
     (if w < length (workers s)
      then (case workers s ! w of
              Working idx \<Rightarrow>
                if idx < length (builds cfg)
                then (let b = builds cfg ! idx;
                          s1 = s\<lparr>reads := reads s @ [b]\<rparr>
                      in case readB cfg b of
                           Inl err \<Rightarrow> s1\<lparr>workers := (workers s)[w := Reporting (Some err)]\<rparr>
                         | Inr col \<Rightarrow>
                             (let s2 = (if int64_of (Started (Column col)) < stop cfg
                                        then s1\<lparr>waiting := waiting s @ [idx],
                                                goroutines := goroutines s + 1,
                                                discovered := discovered s @ [idx]\<rparr>
                                        else s1)
                              in s2\<lparr>cols := (cols s)[idx := col],
                                     workers := (workers s)[w := Receiving],
                                     converted := converted s @ [idx]\<rparr>))
                else s
            | _ \<Rightarrow> s)
      else s)"

text \<open>
  A reader's send on \<^verbatim>\<open>ec\<close> meets the receive of line 224: an error is returned at once, a nil
  counts the loop down. The reader returns.
\<close>

definition report_ec :: "nat \<Rightarrow> state \<Rightarrow> state" where
  "report_ec w s =
     (if phase s = Draining \<and> 0 < remaining s \<and> w < length (workers s)
      then (case workers s ! w of
              Reporting eo \<Rightarrow>
                (case eo of
                   Some err \<Rightarrow>
                     (let s1 = wgDone (s\<lparr>workers := (workers s)[w := Gone]\<rparr>)
                      in if result s1 = None then s1\<lparr>result := Some (Inl err)\<rparr> else s1)
                 | None \<Rightarrow>
                     wgDone (s\<lparr>workers := (workers s)[w := Reported],
                               remaining := remaining s - 1\<rparr>))
            | _ \<Rightarrow> s)
      else s)"

text \<open>Line 222: the loop finds the context done and returns its error.\<close>

definition drainDone :: "config \<Rightarrow> state \<Rightarrow> state" where
  "drainDone cfg s =
     (if phase s = Draining \<and> 0 < remaining s \<and> ctxDone s
      then s\<lparr>result := Some (Inl (CtxErr (if parentDone s then parentErr cfg else Canceled)))\<rparr>
      else s)"

text \<open>Line 232, once the loop is over.\<close>

definition cancel :: "state \<Rightarrow> state" where
  "cancel s =
     (if phase s = Draining \<and> remaining s \<le> 0
      then s\<lparr>phase := Waiting, cancelled := True\<rparr>
      else s)"

text \<open>
  Lines 233 to 235: \<^verbatim>\<open>wg.Wait()\<close> passes at counter zero, \<^verbatim>\<open>stopWG.Wait()\<close> when no detector
  is left, and \<^verbatim>\<open>cols[0:maxIdx]\<close> is returned; the slice expression panics beyond the
  length.
\<close>

definition return :: "state \<Rightarrow> state" where
  "return s =
     (if phase s = Waiting \<and> wg s = 0 \<and> waiting s = [] \<and> holder s = None
      then (if maxIdx s \<le> length (cols s)
            then s\<lparr>result := Some (Inr (take (maxIdx s) (cols s)))\<rparr>
            else s\<lparr>result := Some (Inl (Panic ''slice bounds out of range''))\<rparr>)
      else s)"

text \<open>
  Lines 193 to 212: a detector takes \<^verbatim>\<open>maxLock\<close>. When \<^verbatim>\<open>maxIdx\<close> is still the number of
  builds it stops at the \<^verbatim>\<open>select\<close>, holding the lock; otherwise it shrinks \<^verbatim>\<open>maxIdx\<close> and
  unlocks in the same step.
\<close>

definition lock :: "config \<Rightarrow> nat \<Rightarrow> state \<Rightarrow> state" where
  "lock cfg idx s =
     (if holder s = None \<and> idx \<in> set (waiting s)
      then (if maxIdx s = length (builds cfg)
            then s\<lparr>waiting := remove1 idx (waiting s), holder := Some idx\<rparr>
            else s\<lparr>waiting := remove1 idx (waiting s), maxIdx := shrink idx (maxIdx s)\<rparr>)
      else s)"

text \<open>
  The holder's \<^verbatim>\<open>old <- idx\<close> meets the dispatcher's \<^verbatim>\<open>case <-old\<close>: the dispatcher returns,
  the detector shrinks \<^verbatim>\<open>maxIdx\<close> and unlocks.
\<close>

definition signal :: "config \<Rightarrow> state \<Rightarrow> state" where
  "signal cfg s =
     (case holder s of
        Some idx \<Rightarrow>
          if dispatcher s \<and> nextIdx s < length (builds cfg)
          then wgDone (s\<lparr>dispatcher := False, holder := None, maxIdx := shrink idx (maxIdx s)\<rparr>)
          else s
      | None \<Rightarrow> s)"

text \<open>The holder takes \<^verbatim>\<open>case <-ctx.Done()\<close>, shrinks \<^verbatim>\<open>maxIdx\<close> and unlocks.\<close>

definition unblock :: "state \<Rightarrow> state" where
  "unblock s =
     (case holder s of
        Some idx \<Rightarrow>
          if ctxDone s then s\<lparr>holder := None, maxIdx := shrink idx (maxIdx s)\<rparr> else s
      | None \<Rightarrow> s)"

text \<open>
  A run is over when the caller has executed a return statement, which fixes what it
  returns, or when the process has panicked: no step changes the state after that. The
  deferred calls (\<^verbatim>\<open>cancel()\<close>, \<^verbatim>\<open>wg.Wait()\<close>, \<^verbatim>\<open>stopWG.Wait()\<close>) run after the return
  statement. When columns are returned, at line 235, \<^verbatim>\<open>cancel()\<close> has been called and both
  waits have passed, so that the deferred calls return at once; for the return of an
  error they are the subject of \<open>unwinding\<close> below.
\<close>

definition step :: "config \<Rightarrow> action \<Rightarrow> state \<Rightarrow> state" where
  "step cfg a s =
     (if result s \<noteq> None then s
      else (case a of
              ParentCancel \<Rightarrow> s\<lparr>parentDone := True\<rparr>
            | AddWorkers \<Rightarrow> addWorkers cfg s
            | Vend w \<Rightarrow> vend cfg w s
            | DispatcherReturn \<Rightarrow> dispatcherReturn cfg s
            | SeeClosed w \<Rightarrow> seeClosed w s
            | Quit w \<Rightarrow> quit w s
            | Finish w \<Rightarrow> finish cfg w s
            | Report w \<Rightarrow> report_ec w s
            | DrainDone \<Rightarrow> drainDone cfg s
            | Cancel \<Rightarrow> cancel s
            | Return \<Rightarrow> return s
            | Lock idx \<Rightarrow> lock cfg idx s
            | Signal \<Rightarrow> signal cfg s
            | Unblock \<Rightarrow> unblock s))"

subsection \<open>The function\<close>

text \<open>
  \<open>idle\<close> is the state in which nothing has been started. \<open>start\<close> is the state after
  line 132: the dispatcher is running (\<^verbatim>\<open>wg.Add(1)\<close>), \<^verbatim>\<open>maxIdx\<close> is the number of builds and
  \<^verbatim>\<open>cols\<close> holds that many zero columns.
\<close>

definition idle :: state where
  "idle = \<lparr>result = None, phase = Spawning, remaining = 0, parentDone = False, cancelled = False,
           wg = 0, dispatcher = False, nextIdx = 0, workers = [], waiting = [], holder = None,
           maxIdx = 0, cols = [], goroutines = 0, reads = [], converted = [], discovered = []\<rparr>"

definition start :: "config \<Rightarrow> state" where
  "start cfg =
     idle\<lparr>remaining := concurrency cfg, wg := 1, dispatcher := True,
          maxIdx := length (builds cfg), cols := replicate (length (builds cfg)) zeroColumn,
          goroutines := 1\<rparr>"

text \<open>Lines 107 to 110: only the last \<^verbatim>\<open>max\<close> builds are kept.\<close>

definition capBuilds :: "int \<Rightarrow> Build list \<Rightarrow> Build list" where
  "capBuilds maxCols bs =
     (if maxCols < int (length bs) then drop (nat (int (length bs) - maxCols)) bs else bs)"

definition runConfig ::
  "(Build \<Rightarrow> downloads) \<Rightarrow> converter \<Rightarrow> TestGroup \<Rightarrow> Build list \<Rightarrow> Time \<Rightarrow> int \<Rightarrow> ctxError
     \<Rightarrow> int \<Rightarrow> config" where
  "runConfig client convertResult grp bs stopTime maxCols perr conc =
     \<lparr>builds = capBuilds maxCols bs, stop = int64_wrap (Unix stopTime * 1000),
      concurrency = conc, readB = readBuild client convertResult grp, parentErr = perr\<rparr>"

text \<open>
  \<^verbatim>\<open>readColumns\<close>: the guard on \<^verbatim>\<open>concurrency\<close>, the cap (a negative \<^verbatim>\<open>max\<close> makes the slice
  expression \<^verbatim>\<open>builds[lb-max:]\<close> panic), then the run under the schedule \<open>acts\<close>. The
  value is the state the run ends in; its field \<open>result\<close> is what the function returned,
  \<open>None\<close> when the schedule ends before the function returns. The parent context enters
  through the action \<open>ParentCancel\<close> and the error \<open>perr\<close>; \<^verbatim>\<open>buildTimeout\<close> acts inside the
  read of a build, through the field \<open>deadline\<close> of its downloads.
\<close>

definition readColumns ::
  "(Build \<Rightarrow> downloads) \<Rightarrow> converter \<Rightarrow> TestGroup \<Rightarrow> Build list \<Rightarrow> Time \<Rightarrow> int \<Rightarrow> ctxError
     \<Rightarrow> int \<Rightarrow> action list \<Rightarrow> state" where
  "readColumns client convertResult grp bs stopTime maxCols perr conc acts =
     (if conc = 0 then idle\<lparr>result := Some (Inl (ErrorsNew ''zero readers''))\<rparr>
      else if maxCols < 0 then idle\<lparr>result := Some (Inl (Panic ''slice bounds out of range''))\<rparr>
      else fold (step (runConfig client convertResult grp bs stopTime maxCols perr conc)) acts
             (start (runConfig client convertResult grp bs stopTime maxCols perr conc)))"

subsection \<open>Invariants of a run\<close>

text \<open>
  The facts about a run that the properties below rest on, each kept by every step.
  Bounds: \<^verbatim>\<open>cols\<close> has one place for each build, \<^verbatim>\<open>maxIdx\<close> and the dispatcher's index stay
  within the builds, and an index is read, converted or discovered only after it was
  handed out.
\<close>

definition inv_bounds :: "config \<Rightarrow> state \<Rightarrow> bool" where
  "inv_bounds cfg s =
     (length (cols s) = length (builds cfg) \<and> maxIdx s \<le> length (builds cfg)
      \<and> nextIdx s \<le> length (builds cfg)
      \<and> (\<forall>w<length (workers s). \<forall>i. workers s ! w = Working i \<longrightarrow> i < nextIdx s)
      \<and> (\<forall>i\<in>set (discovered s). i < length (builds cfg))
      \<and> (\<forall>i\<in>set (converted s). i < nextIdx s)
      \<and> length (workers s) \<le> nat (concurrency cfg))"

text \<open>
  The detectors: every index discovered has a detector waiting for the lock or holding it,
  or \<^verbatim>\<open>maxIdx\<close> is already at most that index plus one; and \<^verbatim>\<open>maxIdx\<close> is the number of builds
  or some discovered index plus one.
\<close>

definition inv_detect :: "config \<Rightarrow> state \<Rightarrow> bool" where
  "inv_detect cfg s =
     (set (waiting s) \<subseteq> set (discovered s)
      \<and> (\<forall>i. holder s = Some i \<longrightarrow> i \<in> set (discovered s))
      \<and> (\<forall>i\<in>set (discovered s). i \<in> set (waiting s) \<or> holder s = Some i \<or> maxIdx s \<le> Suc i)
      \<and> (maxIdx s = length (builds cfg) \<or> (\<exists>i\<in>set (discovered s). maxIdx s = Suc i)))"

text \<open>
  The columns: a converted index holds the column of its build, any other place the zero
  column; the discovered indices are the converted ones whose column started before
  \<^verbatim>\<open>stop\<close>.
\<close>

definition inv_cols :: "config \<Rightarrow> state \<Rightarrow> bool" where
  "inv_cols cfg s =
     ((\<forall>i\<in>set (converted s). readB cfg (builds cfg ! i) = Inr (cols s ! i))
      \<and> (\<forall>i<length (builds cfg). i \<notin> set (converted s) \<longrightarrow> cols s ! i = zeroColumn)
      \<and> (\<forall>i. i \<in> set (discovered s) \<longleftrightarrow>
             i \<in> set (converted s) \<and> int64_of (Started (Column (cols s ! i))) < stop cfg))"

text \<open>
  Columns are returned only by the last step of the caller.
\<close>

definition inv_final :: "state \<Rightarrow> bool" where
  "inv_final s =
     (\<forall>cs. result s = Some (Inr cs) \<longrightarrow>
        cs = take (maxIdx s) (cols s) \<and> waiting s = [] \<and> holder s = None \<and> phase s = Waiting)"

text \<open>
  A reader that has an error to send or returned without its nil being received, and a
  reader that has seen \<^verbatim>\<open>indices\<close> closed.
\<close>

fun failedW :: "worker \<Rightarrow> bool" where
  "failedW (Reporting (Some e)) = True"
| "failedW Gone = True"
| "failedW x = False"

fun closedW :: "worker \<Rightarrow> bool" where
  "closedW (Reporting None) = True"
| "closedW Reported = True"
| "closedW x = False"

definition some :: "('a \<Rightarrow> bool) \<Rightarrow> 'a list \<Rightarrow> bool" where
  "some P ws = (\<exists>w<length ws. P (ws ! w))"

text \<open>
  The readers, for a positive \<^verbatim>\<open>concurrency\<close>: there are \<^verbatim>\<open>concurrency\<close> of them, the loop
  counter is \<^verbatim>\<open>concurrency\<close> less the nils received, a reader sees \<^verbatim>\<open>indices\<close> closed only
  after the dispatcher has returned, and \<^verbatim>\<open>cancel()\<close> is called only after the loop.
\<close>

definition inv_workers :: "config \<Rightarrow> state \<Rightarrow> bool" where
  "inv_workers cfg s =
     ((phase s = Spawning \<longrightarrow> workers s = [])
      \<and> (phase s \<noteq> Spawning \<longrightarrow> length (workers s) = nat (concurrency cfg))
      \<and> remaining s = concurrency cfg - int (count_list (workers s) Reported)
      \<and> (phase s = Waiting \<longrightarrow> remaining s \<le> 0)
      \<and> (some closedW (workers s) \<longrightarrow> \<not> dispatcher s)
      \<and> (cancelled s \<longrightarrow> phase s = Waiting))"

text \<open>
  Every index handed out is being read, or is converted, or some reader has failed.
\<close>

definition inv_vended :: "state \<Rightarrow> bool" where
  "inv_vended s =
     ((phase s = Spawning \<longrightarrow> nextIdx s = 0 \<and> workers s = [])
      \<and> (\<forall>i<nextIdx s. some (\<lambda>x. x = Working i) (workers s) \<or> i \<in> set (converted s)
                      \<or> some failedW (workers s)))"

text \<open>
  A build whose read or conversion failed leaves a failed reader behind, or its error (or
  a panic) is what the run returned.
\<close>

definition inv_failed :: "config \<Rightarrow> state \<Rightarrow> bool" where
  "inv_failed cfg s =
     ((workers s = [] \<longrightarrow> reads s = [])
      \<and> ((\<exists>b\<in>set (reads s). \<exists>e. readB cfg b = Inl e) \<longrightarrow>
            some failedW (workers s) \<or> (\<exists>e. result s = Some (Inl e))))"

text \<open>
  A dispatcher that returned before the last index did so for a parent context that is
  done or after a stop signal, which takes a discovered index.
\<close>

definition inv_stopcause :: "config \<Rightarrow> state \<Rightarrow> bool" where
  "inv_stopcause cfg s =
     (\<not> dispatcher s \<and> nextIdx s < length (builds cfg) \<longrightarrow> parentDone s \<or> discovered s \<noteq> [])"

text \<open>
  An error returned is a panic, the error of the context, or the error of a build; and the
  dispatcher was started.
\<close>

definition inv_errs :: "config \<Rightarrow> state \<Rightarrow> bool" where
  "inv_errs cfg s =
     ((\<forall>e. result s = Some (Inl e) \<longrightarrow>
          (\<exists>m. e = Panic m) \<or> (\<exists>c. e = CtxErr c) \<or> (\<exists>b. readB cfg b = Inl e))
      \<and> (\<forall>w<length (workers s). \<forall>e. workers s ! w = Reporting (Some e) \<longrightarrow>
            (\<exists>b. readB cfg b = Inl e))
      \<and> 1 \<le> goroutines s)"

definition inv_all :: "config \<Rightarrow> state \<Rightarrow> bool" where
  "inv_all cfg s =
     (inv_bounds cfg s \<and> inv_detect cfg s \<and> inv_cols cfg s \<and> inv_final s \<and> inv_vended s
      \<and> inv_failed cfg s \<and> inv_errs cfg s
      \<and> (0 < concurrency cfg \<longrightarrow> inv_workers cfg s \<and> inv_stopcause cfg s))"

text \<open>
  A download that failed with an error other than the end of the stream, and the case
  that a branch is the only one to send an error while the build's context is not done.
\<close>

fun hard :: "'a fetched \<Rightarrow> bool" where
  "hard (Failed err) = (\<not> errorsIs err EOF)"
| "hard x = False"

definition soleFailure :: "downloads \<Rightarrow> Build \<Rightarrow> branch \<Rightarrow> bool" where
  "soleFailure d b br =
     (list_all (\<lambda>br'. br' = br \<or> report d b br' = None) [PodInfoB, StartedB, FinishedB, SuitesB]
      \<and> deadline d = None)"

subsection \<open>Progress of a run\<close>

text \<open>
  What makes a run end. \<^verbatim>\<open>wg\<close> waits for the dispatcher and for every reader that has not
  returned: a reader counts until its nil was received or it returned otherwise.
\<close>

fun activeW :: "worker \<Rightarrow> nat" where
  "activeW Reported = 0"
| "activeW Gone = 0"
| "activeW x = 1"

text \<open>
  With a negative \<^verbatim>\<open>concurrency\<close> the call \<^verbatim>\<open>wg.Add(concurrency)\<close> of line 140 lowers the
  counter below the number of goroutines that will call \<^verbatim>\<open>wg.Done()\<close>, by this much.
\<close>

definition debt :: "config \<Rightarrow> state \<Rightarrow> int" where
  "debt cfg s = (if phase s = Spawning \<or> 0 \<le> concurrency cfg then 0 else concurrency cfg)"

text \<open>
  The counter of \<^verbatim>\<open>wg\<close> is the number of goroutines it waits for, and it is not negative
  while the run goes on; the loop counter of line 220 is \<^verbatim>\<open>concurrency\<close> less the nils
  received; the caller is in its last phase exactly after \<^verbatim>\<open>cancel()\<close>, which it calls only
  after the loop; there are \<^verbatim>\<open>concurrency\<close> readers once they are started and none before;
  and a reader returns without a send only when the context is done.
\<close>

definition inv_live :: "config \<Rightarrow> state \<Rightarrow> bool" where
  "inv_live cfg s =
     (wg s = (if dispatcher s then 1 else 0) + int (sum_list (map activeW (workers s)))
              + debt cfg s
      \<and> (result s = None \<longrightarrow> 0 \<le> wg s)
      \<and> remaining s = concurrency cfg - int (count_list (workers s) Reported)
      \<and> (phase s = Waiting \<longrightarrow> remaining s \<le> 0 \<and> cancelled s)
      \<and> (cancelled s \<longrightarrow> phase s = Waiting)
      \<and> (phase s \<noteq> Spawning \<longrightarrow> length (workers s) = nat (concurrency cfg))
      \<and> (phase s = Spawning \<longrightarrow> workers s = [])
      \<and> (result s = None \<and> some (\<lambda>x. x = Gone) (workers s) \<longrightarrow> ctxDone s))"

text \<open>
  A measure of what the goroutines have left to do: the caller its phases, the
  dispatcher its return and the indices not yet handed out, a reader what is left of its
  loop body, a detector the lock and the \<^verbatim>\<open>select\<close> of line 197, the parent context its end.
  Every step that changes the state lowers it, unless the step ends the run.
\<close>

fun phiW :: "worker \<Rightarrow> nat" where
  "phiW Receiving = 2"
| "phiW (Working i) = 5"
| "phiW (Reporting eo) = 1"
| "phiW Reported = 0"
| "phiW Gone = 0"

definition phi :: "config \<Rightarrow> state \<Rightarrow> nat" where
  "phi cfg s =
     (if parentDone s then 0 else 1)
     + (case phase s of Spawning \<Rightarrow> 3 + 2 * nat (concurrency cfg) | Draining \<Rightarrow> 2 | Waiting \<Rightarrow> 1)
     + (if dispatcher s then 1 + 6 * (length (builds cfg) - nextIdx s) else 0)
     + sum_list (map phiW (workers s))
     + 2 * length (waiting s)
     + (case holder s of None \<Rightarrow> 0 | Some idx \<Rightarrow> 1)"


text \<open>
  Where an error comes from when \<^verbatim>\<open>concurrency\<close> is not negative: a reader sends only the
  error of a build of the list, and the run returns an error only when the parent context
  is done or the read of a build of the list failed.
\<close>

definition inv_cause :: "config \<Rightarrow> state \<Rightarrow> bool" where
  "inv_cause cfg s =
     ((\<forall>w<length (workers s). \<forall>e. workers s ! w = Reporting (Some e) \<longrightarrow>
          (\<exists>i<length (builds cfg). readB cfg (builds cfg ! i) = Inl e))
      \<and> (\<forall>e. result s = Some (Inl e) \<longrightarrow>
            parentDone s \<or> (\<exists>i<length (builds cfg). readB cfg (builds cfg ! i) = Inl e)))"

text \<open>
  The calls deferred at lines 96, 98 and 106 run after a return statement, last deferred
  first: \<^verbatim>\<open>cancel()\<close>, then \<^verbatim>\<open>wg.Wait()\<close> and \<^verbatim>\<open>stopWG.Wait()\<close>, while the goroutines move on as
  in the caller's last phase. \<open>unwinding\<close> is the state in which they start after the
  return of an error, with the value returned put aside so that the steps go on; the
  waits pass when the counter of \<^verbatim>\<open>wg\<close> is zero and no detector is left. While they wait, \<^verbatim>\<open>wg\<close> counts the dispatcher and the readers that have not
  returned, and a reader at work has an index of the list.
\<close>

definition unwinding :: "state \<Rightarrow> state" where
  "unwinding s = s\<lparr>result := None, phase := Waiting, cancelled := True\<rparr>"

definition waitsPass :: "state \<Rightarrow> bool" where
  "waitsPass s = (wg s = 0 \<and> waiting s = [] \<and> holder s = None)"

definition inv_unwind :: "config \<Rightarrow> state \<Rightarrow> bool" where
  "inv_unwind cfg s =
     (wg s = (if dispatcher s then 1 else 0) + int (sum_list (map activeW (workers s)))
      \<and> phase s = Waiting \<and> cancelled s \<and> result s = None
      \<and> (\<forall>w<length (workers s). \<forall>i. workers s ! w = Working i \<longrightarrow> i < length (builds cfg)))"

subsection \<open>Inputs for the examples\<close>

text \<open>
  A group, a build lister, a storage client that serves every artifact, a converter that
  names the column after the build and starts build 0 at 400 ms, build 1 at 500 ms and any
  other at 7000 ms, and a schedule of two readers: both builds 0 and 1 are read and found
  old, the detector of build 1 takes the lock first and stops the dispatcher, the detector
  of build 0 follows, and the caller returns.
\<close>

definition exGroup :: TestGroup where
  "exGroup = \<lparr>Name = ''g'', GcsPrefix = ''bucket/logs/job'', ColumnHeader = [],
         TestNameConfig = None, DisableMergedStatus = False, DisableProwjobAnalysis = False,
         BuildOverrideStrftime = [], ShortTextMetric = [], UserProperty = []\<rparr>"

definition exBuild :: "string \<Rightarrow> Build" where
  "exBuild n = \<lparr>Path = \<lparr>bucket = ''bucket'', object = ''logs/job/'' @ n\<rparr>, Job = ''job'', BuildID = n\<rparr>"

definition exDownloads :: downloads where
  "exDownloads =
     \<lparr>fetchPodInfo = Fetched ''pod'', fetchStarted = Fetched ''st'', fetchFinished = Fetched ''fin'',
      listArtifacts = None, downloadSuites = None, suitesEvents = [ListReport, DownloadReport],
      arrival = [], deadline = None, ctxErr = Canceled\<rparr>"


definition exConvert :: converter where
  "exConvert =
     (\<lambda>nc id heads r opts.
        Inr \<lparr>Column = \<lparr>Hint = id,
                        Started = (if id = ''0'' then 400 else if id = ''1'' then 500 else 7000)\<rparr>,
             Cells = []\<rparr>)"






definition exSuitesFailing :: "Build \<Rightarrow> downloads" where
  \<comment> \<open>The download of the suites fails for every build, with an error that is no storage error.\<close>
  "exSuitesFailing b = exDownloads\<lparr>downloadSuites := Some (ErrorsNew ''boom'')\<rparr>"


section \<open>Properties\<close>

subsection \<open>The resume hint\<close>

lemma fst_hintStarted:
  "fst (hintStarted lessFn columns) = fst (hintStarted_loop lessFn 0 columns ([], 0))"
  by (simp add: hintStarted_def Let_def split: prod.splits)

text \<open>
  The loop invariant: \<open>seen\<close> holds the hints read so far, the running hint is one of
  them and none of them is above it. The order only has to be irreflexive and
  transitive on the hints at hand.
\<close>

lemma hintStarted_loop_maximal:
  assumes irr: "\<forall>h\<in>S. \<not> lessFn h h"
    and tr: "\<forall>a\<in>S. \<forall>b\<in>S. \<forall>c\<in>S. lessFn a b \<longrightarrow> lessFn b c \<longrightarrow> lessFn a c"
    and sub: "Hint ` Column ` set columns \<subseteq> S" "seen \<subseteq> S"
    and cur: "hint \<in> seen" "\<forall>h\<in>seen. \<not> lessFn hint h"
    and pos: "0 < i"
  shows "fst (hintStarted_loop lessFn i columns (hint, st)) \<in> seen \<union> Hint ` Column ` set columns
       \<and> (\<forall>h\<in>seen \<union> Hint ` Column ` set columns.
             \<not> lessFn (fst (hintStarted_loop lessFn i columns (hint, st))) h)"
  using sub cur pos
proof (induction columns arbitrary: i hint st seen)
  case Nil
  then show ?case by simp
next
  case (Cons col columns)
  let ?n = "Hint (Column col)"
  let ?h' = "if lessFn hint ?n then ?n else hint"
  let ?s' = "if st < Started (Column col) then Started (Column col) else st"
  let ?seen' = "insert ?n seen"
  have nS: "?n \<in> S" using Cons.prems(1) by auto
  have hS: "hint \<in> S" using Cons.prems by auto
  have step: "hintStarted_loop lessFn i (col # columns) (hint, st)
              = hintStarted_loop lessFn (Suc i) columns (?h', ?s')"
    using Cons.prems(5) by (simp add: Let_def)
  have a1: "Hint ` Column ` set columns \<subseteq> S" using Cons.prems(1) by auto
  have a2: "?seen' \<subseteq> S" using Cons.prems(2) nS by auto
  have a3: "?h' \<in> ?seen'" using Cons.prems(3) by auto
  have a4: "\<forall>h\<in>?seen'. \<not> lessFn ?h' h"
  proof
    fix h assume h: "h \<in> ?seen'"
    show "\<not> lessFn ?h' h"
    proof (cases "lessFn hint ?n")
      case True
      have "\<not> lessFn ?n h"
      proof
        assume l: "lessFn ?n h"
        show False
        proof (cases "h = ?n")
          case True
          then show False using l irr nS by auto
        next
          case False
          then have hs: "h \<in> seen" using h by auto
          then have "h \<in> S" using Cons.prems(2) by auto
          then have "lessFn hint h" using tr hS nS True l by blast
          then show False using Cons.prems(4) hs by auto
        qed
      qed
      then show ?thesis using True by simp
    next
      case False
      then show ?thesis using h Cons.prems(4) by auto
    qed
  qed
  have "fst (hintStarted_loop lessFn (Suc i) columns (?h', ?s')) \<in> ?seen' \<union> Hint ` Column ` set columns
       \<and> (\<forall>h\<in>?seen' \<union> Hint ` Column ` set columns.
             \<not> lessFn (fst (hintStarted_loop lessFn (Suc i) columns (?h', ?s'))) h)"
    by (rule Cons.IH[OF a1 a2 a3 a4]) simp
  then show ?case unfolding step by auto
qed

text \<open>
  C3, as amended. For an empty list \<^verbatim>\<open>hintStarted\<close> returns the empty hint. For a
  non-empty list it returns one of the columns' hints, and no column's hint is above it
  in the natural order: the natural-order maximum. The order is a parameter, used only
  as irreflexive and transitive on the hints of the list. The hint can be empty for a
  non-empty list too (when the maximum itself is empty), so only one direction of the
  claimed equivalence holds.
\<close>

theorem hintStarted_hint_maximum:
  assumes irr: "\<forall>h\<in>set (hintsOf columns). \<not> lessFn h h"
    and tr: "\<forall>a\<in>set (hintsOf columns). \<forall>b\<in>set (hintsOf columns). \<forall>c\<in>set (hintsOf columns).
               lessFn a b \<longrightarrow> lessFn b c \<longrightarrow> lessFn a c"
  shows "(columns = [] \<longrightarrow> fst (hintStarted lessFn columns) = [])
       \<and> (columns \<noteq> [] \<longrightarrow> fst (hintStarted lessFn columns) \<in> set (hintsOf columns)
            \<and> (\<forall>h\<in>set (hintsOf columns). \<not> lessFn (fst (hintStarted lessFn columns)) h))"
proof (cases columns)
  case Nil
  then show ?thesis by (simp add: fst_hintStarted)
next
  case (Cons col rest)
  let ?S = "set (hintsOf columns)"
  let ?n = "Hint (Column col)"
  have S: "?S = insert ?n (Hint ` Column ` set rest)"
    using Cons by (auto simp: hintsOf_def)
  have first: "hintStarted_loop lessFn 0 columns ([], 0)
               = hintStarted_loop lessFn (Suc 0) rest (?n, Started (Column col))"
    using Cons by (simp add: Let_def)
  have "fst (hintStarted_loop lessFn (Suc 0) rest (?n, Started (Column col)))
          \<in> {?n} \<union> Hint ` Column ` set rest
      \<and> (\<forall>h\<in>{?n} \<union> Hint ` Column ` set rest.
            \<not> lessFn (fst (hintStarted_loop lessFn (Suc 0) rest (?n, Started (Column col)))) h)"
  proof (rule hintStarted_loop_maximal[where S = ?S])
    show "\<forall>h\<in>?S. \<not> lessFn h h" by (rule irr)
    show "\<forall>a\<in>?S. \<forall>b\<in>?S. \<forall>c\<in>?S. lessFn a b \<longrightarrow> lessFn b c \<longrightarrow> lessFn a c" by (rule tr)
    show "Hint ` Column ` set rest \<subseteq> ?S" using S by auto
    show "{?n} \<subseteq> ?S" using S by auto
    show "?n \<in> {?n}" by simp
    show "\<forall>h\<in>{?n}. \<not> lessFn ?n h" using irr S by auto
    show "0 < Suc 0" by simp
  qed
  then show ?thesis using Cons S by (simp add: fst_hintStarted first)
qed

text \<open>
  The theorem at the columns with hints \<^verbatim>\<open>build9\<close>, \<^verbatim>\<open>build10\<close>, \<^verbatim>\<open>build2\<close> under the
  natural order: the hint returned is \<^verbatim>\<open>build10\<close>, which bytewise order would rank
  below \<^verbatim>\<open>build9\<close>.
\<close>

theorem hintStarted_hint_maximum_witness:
  "[\<lparr>Column = \<lparr>Hint = ''build9'', Started = 1\<rparr>, Cells = []\<rparr>,
    \<lparr>Column = \<lparr>Hint = ''build10'', Started = 2\<rparr>, Cells = []\<rparr>,
    \<lparr>Column = \<lparr>Hint = ''build2'', Started = 3\<rparr>, Cells = []\<rparr>] \<noteq> []
   \<and> fst (hintStarted NaturalLess
        [\<lparr>Column = \<lparr>Hint = ''build9'', Started = 1\<rparr>, Cells = []\<rparr>,
         \<lparr>Column = \<lparr>Hint = ''build10'', Started = 2\<rparr>, Cells = []\<rparr>,
         \<lparr>Column = \<lparr>Hint = ''build2'', Started = 3\<rparr>, Cells = []\<rparr>])
       \<in> {''build9'', ''build10'', ''build2''}
   \<and> \<not> NaturalLess (fst (hintStarted NaturalLess
        [\<lparr>Column = \<lparr>Hint = ''build9'', Started = 1\<rparr>, Cells = []\<rparr>,
         \<lparr>Column = \<lparr>Hint = ''build10'', Started = 2\<rparr>, Cells = []\<rparr>,
         \<lparr>Column = \<lparr>Hint = ''build2'', Started = 3\<rparr>, Cells = []\<rparr>])) ''build10''
   \<and> NaturalLess ''build9'' ''build10'' \<and> ''build10'' < ''build9''"
proof -
  let ?columns = "[\<lparr>Column = \<lparr>Hint = ''build9'', Started = 1\<rparr>, Cells = []\<rparr>,
                \<lparr>Column = \<lparr>Hint = ''build10'', Started = 2\<rparr>, Cells = []\<rparr>,
                \<lparr>Column = \<lparr>Hint = ''build2'', Started = 3\<rparr>, Cells = []\<rparr>]"
  have hs: "hintsOf ?columns = [''build9'', ''build10'', ''build2'']"
    by (simp add: hintsOf_def)
  have irr: "\<forall>h\<in>set (hintsOf ?columns). \<not> NaturalLess h h"
    unfolding hs by code_simp
  have tr: "\<forall>a\<in>set (hintsOf ?columns). \<forall>b\<in>set (hintsOf ?columns). \<forall>c\<in>set (hintsOf ?columns).
              NaturalLess a b \<longrightarrow> NaturalLess b c \<longrightarrow> NaturalLess a c"
    unfolding hs by code_simp
  have ord: "NaturalLess ''build9'' ''build10''" by code_simp
  have byt: "''build10'' < ''build9''" by code_simp
  from hintStarted_hint_maximum[OF irr tr] ord byt show ?thesis
    unfolding hs by simp
qed

text \<open>
  The claim as stated fails at a single column whose hint is empty: the hint returned
  is empty and the list is not.
\<close>

theorem hintStarted_empty_iff_counterexample:
  "\<not> (fst (hintStarted NaturalLess [\<lparr>Column = \<lparr>Hint = [], Started = 0\<rparr>, Cells = []\<rparr>]) = []
        \<longleftrightarrow> [\<lparr>Column = \<lparr>Hint = [], Started = 0\<rparr>, Cells = []\<rparr>] = [])"
  by (simp add: fst_hintStarted)

subsection \<open>The stop boundary\<close>

text \<open>
  The stop handed on is the later of the caller's stop and the time \<^verbatim>\<open>hintStarted\<close>
  computes, so it never moves back.
\<close>

lemma gcsColumnReader_stop_eq:
  "snd (gcsColumnReader_stop lessFn oldCols stopAt) = max stopAt (snd (hintStarted lessFn oldCols))"
  by (auto simp: gcsColumnReader_stop_def After_def Let_def split: prod.splits)

lemma gcsColumnReader_stop_never_back:
  "stopAt \<le> snd (gcsColumnReader_stop lessFn oldCols stopAt)"
  by (simp add: gcsColumnReader_stop_eq)

text \<open>
  C8. The doc comment of \<^verbatim>\<open>hintStarted\<close> promises the maximum start time. For one
  previous column started at 1700 ms the time computed is \<^verbatim>\<open>time.Unix(1, -300000000)\<close>,
  0.7 s, since \<^verbatim>\<open>math.Remainder(1700, 1000)\<close> is -300: a caller's stop of 1 s is kept,
  although the maximum start time, 1.7 s, is later; and a caller's stop of 0 s is
  advanced to 0.7 s, not to 1.7 s. In the same way a column started at 1600000000700 ms
  gives 1599999999.7 s: every start time whose millisecond part is above 500 comes out
  one second early.
\<close>

theorem gcsColumnReader_stop_at_1700:
  "mathRemainder 1700 1000 = - 300
   \<and> snd (hintStarted NaturalLess [\<lparr>Column = \<lparr>Hint = [], Started = 1700\<rparr>, Cells = []\<rparr>])
       = timeUnix 0 700000000
   \<and> snd (gcsColumnReader_stop NaturalLess
            [\<lparr>Column = \<lparr>Hint = [], Started = 1700\<rparr>, Cells = []\<rparr>] (timeUnix 1 0))
       = timeUnix 1 0
   \<and> snd (gcsColumnReader_stop NaturalLess
            [\<lparr>Column = \<lparr>Hint = [], Started = 1700\<rparr>, Cells = []\<rparr>] (timeUnix 0 0))
       = timeUnix 0 700000000
   \<and> timeUnix 0 700000000 < timeUnix 1 700000000
   \<and> snd (hintStarted NaturalLess
            [\<lparr>Column = \<lparr>Hint = [], Started = 1600000000700\<rparr>, Cells = []\<rparr>])
       = timeUnix 1599999999 700000000"
  by code_simp

subsection \<open>The name configuration of a group of several jobs\<close>

text \<open>
  C4, as amended. For a group whose GCS prefix contains a comma, the name configuration
  is marked multi-job and the job name is among its parts. When the declared parts
  already name the job, parts and format are the declared ones, unchanged: the job name
  stays where it was declared and no \<^verbatim>\<open>%s.\<close> is added. When they do not, the job name
  is put in front and the format is the declared one after a single \<^verbatim>\<open>%s.\<close>. Ensuring
  the job name again changes nothing, so the prefix is never added twice.
\<close>

theorem makeNameConfig_multi_job:
  assumes "stringsContains (GcsPrefix grp) '',''"
  shows "jobName \<in> set (parts (makeNameConfig grp))
       \<and> multiJob (makeNameConfig grp)
       \<and> (jobName \<in> set (parts (convertNameConfig (TestNameConfig grp))) \<longrightarrow>
            parts (makeNameConfig grp) = parts (convertNameConfig (TestNameConfig grp))
          \<and> format (makeNameConfig grp) = format (convertNameConfig (TestNameConfig grp)))
       \<and> (jobName \<notin> set (parts (convertNameConfig (TestNameConfig grp))) \<longrightarrow>
            parts (makeNameConfig grp) = jobName # parts (convertNameConfig (TestNameConfig grp))
          \<and> format (makeNameConfig grp)
              = ''%s.'' @ format (convertNameConfig (TestNameConfig grp)))
       \<and> ensureJobName (makeNameConfig grp) = makeNameConfig grp"
  using assms by (simp add: makeNameConfig_def ensureJobName_def Let_def)

text \<open>
  The theorem at a group of two prefixes with no declared name configuration: the
  default part \<^verbatim>\<open>Tests name\<close> gets the job name in front.
\<close>

theorem makeNameConfig_multi_job_witness:
  "stringsContains ''bucket/a,bucket/b'' '',''
   \<and> parts (makeNameConfig
        \<lparr>Name = ''g'', GcsPrefix = ''bucket/a,bucket/b'', ColumnHeader = [],
         TestNameConfig = None, DisableMergedStatus = False, DisableProwjobAnalysis = False,
         BuildOverrideStrftime = [], ShortTextMetric = [], UserProperty = []\<rparr>)
       = [''Job name'', ''Tests name'']
   \<and> format (makeNameConfig
        \<lparr>Name = ''g'', GcsPrefix = ''bucket/a,bucket/b'', ColumnHeader = [],
         TestNameConfig = None, DisableMergedStatus = False, DisableProwjobAnalysis = False,
         BuildOverrideStrftime = [], ShortTextMetric = [], UserProperty = []\<rparr>)
       = ''%s.%s''"
proof -
  let ?g = "\<lparr>Name = ''g'', GcsPrefix = ''bucket/a,bucket/b'', ColumnHeader = [],
         TestNameConfig = None, DisableMergedStatus = False, DisableProwjobAnalysis = False,
         BuildOverrideStrftime = [], ShortTextMetric = [], UserProperty = []\<rparr>"
  have c: "stringsContains ''bucket/a,bucket/b'' '',''" by code_simp
  then have h: "stringsContains (GcsPrefix ?g) '',''" by simp
  have n: "jobName \<notin> set (parts (convertNameConfig (TestNameConfig ?g)))"
    by (simp add: convertNameConfig_def jobName_def testsName_def)
  from makeNameConfig_multi_job[OF h] n c show ?thesis
    by (simp add: convertNameConfig_def jobName_def testsName_def)
qed

text \<open>
  The claim as stated fails at a group of two prefixes that declares the parts
  \<^verbatim>\<open>Tests name\<close>, \<^verbatim>\<open>Job name\<close> with the format \<^verbatim>\<open>%s - %s\<close>: the job name is not in
  front and the format does not start with \<^verbatim>\<open>%s.\<close>.
\<close>

theorem makeNameConfig_front_counterexample:
  "stringsContains ''bucket/a,bucket/b'' '',''
   \<and> parts (makeNameConfig
        \<lparr>Name = ''g'', GcsPrefix = ''bucket/a,bucket/b'', ColumnHeader = [],
         TestNameConfig = Some \<lparr>NameFormat = ''%s - %s'',
           NameElements = [\<lparr>TargetConfig = ''Tests name'', TestProperty = []\<rparr>,
                           \<lparr>TargetConfig = ''Job name'', TestProperty = []\<rparr>]\<rparr>,
         DisableMergedStatus = False, DisableProwjobAnalysis = False,
         BuildOverrideStrftime = [], ShortTextMetric = [], UserProperty = []\<rparr>)
       = [''Tests name'', ''Job name'']
   \<and> format (makeNameConfig
        \<lparr>Name = ''g'', GcsPrefix = ''bucket/a,bucket/b'', ColumnHeader = [],
         TestNameConfig = Some \<lparr>NameFormat = ''%s - %s'',
           NameElements = [\<lparr>TargetConfig = ''Tests name'', TestProperty = []\<rparr>,
                           \<lparr>TargetConfig = ''Job name'', TestProperty = []\<rparr>]\<rparr>,
         DisableMergedStatus = False, DisableProwjobAnalysis = False,
         BuildOverrideStrftime = [], ShortTextMetric = [], UserProperty = []\<rparr>)
       = ''%s - %s''
   \<and> \<not> stringsHasPrefix ''%s - %s'' ''%s.''
   \<and> hd [''Tests name'', ''Job name''] \<noteq> jobName"
  by code_simp

subsection \<open>Reading one build\<close>

lemma snd_download: "snd (download d b br r) = report d b br"
  by (cases br) (auto simp: report_def split: fetched.splits sum.splits option.splits)

lemma malformed_download_mono:
  "set (malformed r) \<subseteq> set (malformed (fst (download d b br r)))"
  by (cases br) (auto simp: addMalformed_def split: fetched.splits sum.splits option.splits)

lemma arrivalOrder_set: "set (arrivalOrder d) = {PodInfoB, StartedB, FinishedB, SuitesB}"
proof -
  have "\<And>x. x \<in> set (arrival d) \<Longrightarrow> x \<in> {PodInfoB, StartedB, FinishedB, SuitesB}"
    by (metis branch.exhaust insertCI)
  then show ?thesis by (auto simp: arrivalOrder_def)
qed

lemma arrivalOrder_distinct: "distinct (arrivalOrder d)"
  by (simp add: arrivalOrder_def)

lemma collect_error:
  "br \<in> set brs \<Longrightarrow> report d b br = Some e \<Longrightarrow> \<exists>e'. readResult_collect d b k r brs = Inl e'"
proof (induction brs arbitrary: k r)
  case Nil
  then show ?case by simp
next
  case (Cons a brs)
  obtain r' eo where dl: "download d b a r = (r', eo)" by (cases "download d b a r")
  then have eo: "eo = report d b a" using snd_download[of d b a r] by simp
  show ?case
  proof (cases "deadline d = Some k")
    case True
    then show ?thesis by simp
  next
    case False
    show ?thesis
    proof (cases eo)
      case (Some x)
      then show ?thesis using False dl by simp
    next
      case None
      then have "a \<noteq> br" using eo Cons.prems(2) by auto
      then have "br \<in> set brs" using Cons.prems(1) by simp
      from Cons.IH[OF this Cons.prems(2)] show ?thesis using False dl None by simp
    qed
  qed
qed

lemma collect_only:
  "br \<in> set brs \<Longrightarrow> report d b br = Some e \<Longrightarrow>
   (\<forall>br'\<in>set brs. br' \<noteq> br \<longrightarrow> report d b br' = None) \<Longrightarrow> deadline d = None \<Longrightarrow>
   readResult_collect d b k r brs = Inl e"
proof (induction brs arbitrary: k r)
  case Nil
  then show ?case by simp
next
  case (Cons a brs)
  obtain r' eo where dl: "download d b a r = (r', eo)" by (cases "download d b a r")
  then have eo: "eo = report d b a" using snd_download[of d b a r] by simp
  show ?case
  proof (cases "a = br")
    case True
    then show ?thesis using dl eo Cons.prems by simp
  next
    case False
    then have n: "eo = None" using eo Cons.prems(3) by simp
    have m: "br \<in> set brs" using False Cons.prems(1) by auto
    have "readResult_collect d b (Suc k) r' brs = Inl e"
      by (rule Cons.IH[OF m Cons.prems(2)]) (use Cons.prems in auto)
    then show ?thesis using dl n Cons.prems(4) by simp
  qed
qed

lemma collect_ok:
  "(\<forall>br\<in>set brs. report d b br = None) \<Longrightarrow> deadline d = None \<Longrightarrow>
   readResult_collect d b k r brs = Inr (fold (\<lambda>br r. fst (download d b br r)) brs r)"
proof (induction brs arbitrary: k r)
  case Nil
  then show ?case by simp
next
  case (Cons a brs)
  obtain r' eo where dl: "download d b a r = (r', eo)" by (cases "download d b a r")
  then have eo: "eo = report d b a" using snd_download[of d b a r] by simp
  then have n: "eo = None" using Cons.prems(1) by simp
  have "readResult_collect d b (Suc k) r' brs = Inr (fold (\<lambda>br r. fst (download d b br r)) brs r')"
    by (rule Cons.IH) (use Cons.prems in auto)
  then show ?case using dl n Cons.prems(2) by simp
qed

lemma fold_download_malformed_mono:
  "set (malformed r) \<subseteq> set (malformed (fold (\<lambda>br r. fst (download d b br r)) brs r))"
proof (induction brs arbitrary: r)
  case Nil
  then show ?case by simp
next
  case (Cons a brs)
  have "set (malformed r) \<subseteq> set (malformed (fst (download d b a r)))"
    by (rule malformed_download_mono)
  also have "\<dots> \<subseteq> set (malformed (fold (\<lambda>br r. fst (download d b br r)) brs (fst (download d b a r))))"
    by (rule Cons.IH)
  finally show ?case by simp
qed

lemma fold_download_malformed_mem:
  "br \<in> set brs \<Longrightarrow> (\<And>r. name \<in> set (malformed (fst (download d b br r)))) \<Longrightarrow>
   name \<in> set (malformed (fold (\<lambda>br r. fst (download d b br r)) brs r))"
proof (induction brs arbitrary: r)
  case Nil
  then show ?case by simp
next
  case (Cons a brs)
  show ?case
  proof (cases "a = br")
    case True
    have "name \<in> set (malformed (fst (download d b a r)))" using True Cons.prems(2) by simp
    then show ?thesis using fold_download_malformed_mono[of "fst (download d b a r)" d b brs] by auto
  next
    case False
    then have "br \<in> set brs" using Cons.prems(1) by simp
    from Cons.IH[OF this Cons.prems(2)] show ?thesis by simp
  qed
qed

lemma fold_download_other:
  "br \<notin> set brs \<Longrightarrow>
     (br = FinishedB \<longrightarrow> finished (fold (\<lambda>br r. fst (download d b br r)) brs r) = finished r)
   \<and> (br = SuitesB \<longrightarrow> suites (fold (\<lambda>br r. fst (download d b br r)) brs r) = suites r)"
proof (induction brs arbitrary: r)
  case Nil
  then show ?case by simp
next
  case (Cons a brs)
  then have ne: "a \<noteq> br" and nin: "br \<notin> set brs" by auto
  have keep: "(br = FinishedB \<longrightarrow> finished (fst (download d b a r)) = finished r)
            \<and> (br = SuitesB \<longrightarrow> suites (fst (download d b a r)) = suites r)"
    using ne by (cases a) (auto simp: addMalformed_def split: fetched.splits sum.splits option.splits)
  from Cons.IH[OF nin, of "fst (download d b a r)"] keep show ?case by simp
qed

lemma fold_download_field:
  "distinct brs \<Longrightarrow> br \<in> set brs \<Longrightarrow>
     (br = FinishedB \<longrightarrow> fetchFinished d = Fetched f \<longrightarrow>
        finished (fold (\<lambda>br r. fst (download d b br r)) brs r) = f)
   \<and> (br = SuitesB \<longrightarrow> readSuites d = Inr ss \<longrightarrow>
        suites (fold (\<lambda>br r. fst (download d b br r)) brs r) = ss)"
proof (induction brs arbitrary: r)
  case Nil
  then show ?case by simp
next
  case (Cons a brs)
  show ?case
  proof (cases "a = br")
    case True
    then have "br \<notin> set brs" using Cons.prems(1) by auto
    from fold_download_other[OF this, of d b "fst (download d b a r)"] True show ?thesis
      by (cases a) (auto split: fetched.splits sum.splits option.splits)
  next
    case False
    then have "br \<in> set brs" "distinct brs" using Cons.prems by auto
    from Cons.IH[OF this(2) this(1), of "fst (download d b a r)"] show ?thesis by simp
  qed
qed

lemma readSuites_loop_shape:
  "readSuites_loop d w acc evs = Inr ss \<Longrightarrow>
   \<exists>k. ss = acc @ map (Truncate 1000) (take k (received evs))"
proof (induction d w acc evs rule: readSuites_loop.induct)
  case (1 d suites evs)
  then have "ss = suites @ map (Truncate 1000) (take 0 (received evs))" by simp
  then show ?case by blast
next
  case (2 d work suites)
  then show ?case by (simp add: received_def)
next
  case (3 d work suites ev evs)
  show ?case
  proof (cases ev)
    case CtxDone
    then show ?thesis using 3 by simp
  next
    case ListReport
    with 3 obtain k where "ss = suites @ map (Truncate 1000) (take k (received evs))"
      by (auto split: option.splits)
    then show ?thesis using ListReport by (auto simp: received_def)
  next
    case DownloadReport
    with 3 obtain k where "ss = suites @ map (Truncate 1000) (take k (received evs))"
      by (auto split: option.splits)
    then show ?thesis using DownloadReport by (auto simp: received_def)
  next
    case (SuiteRecv s)
    with 3 obtain k where "ss = (suites @ [Truncate 1000 s]) @ map (Truncate 1000) (take k (received evs))"
      by (auto split: option.splits)
    then have "ss = suites @ map (Truncate 1000) (take (Suc k) (received (ev # evs)))"
      using SuiteRecv by (simp add: received_def)
    then show ?thesis by blast
  next
    case SuitesClosed
    then have "ss = suites @ map (Truncate 1000) (take 0 (received (ev # evs)))" using 3 by simp
    then show ?thesis by blast
  qed
qed


lemma readResult_all_soft:
  assumes "\<forall>br\<in>set (arrivalOrder d). report d b br = None" and "deadline d = None"
  shows "readResult d b
         = Inr ((fold (\<lambda>br r. fst (download d b br r)) (arrivalOrder d) (newResult b))
                  \<lparr>malformed := sort (malformed
                      (fold (\<lambda>br r. fst (download d b br r)) (arrivalOrder d) (newResult b)))\<rparr>)"
  using collect_ok[OF assms, of 0 "newResult b"] by (simp add: readResult_def)

lemma readResult_hard:
  assumes "report d b br = Some e"
  shows "\<exists>e'. readResult d b = Inl e'"
proof -
  have "br \<in> set (arrivalOrder d)" unfolding arrivalOrder_set by (cases br) auto
  from collect_error[OF this assms, of 0 "newResult b"] show ?thesis
    by (auto simp: readResult_def)
qed

lemma report_fetch:
  "report d b PodInfoB = None \<longleftrightarrow> \<not> (\<exists>e. fetchPodInfo d = Failed e \<and> \<not> errorsIs e EOF)"
  "report d b StartedB = None \<longleftrightarrow> absent (fetchStarted d) \<or> present (fetchStarted d)"
  "report d b FinishedB = None \<longleftrightarrow> absent (fetchFinished d) \<or> present (fetchFinished d)"
  by (auto simp: report_def split: fetched.splits)

lemma report_suites:
  "report d b SuitesB = None \<longleftrightarrow>
     (case readSuites d of Inr ss \<Rightarrow> True | Inl err \<Rightarrow> errorsAs_gcsError err \<noteq> None)"
  by (auto simp: report_def split: sum.splits option.splits)

text \<open>
  C6. Take a build whose pod info, \<^verbatim>\<open>started.json\<close> and \<^verbatim>\<open>finished.json\<close> are each there
  or absent (the download ends with \<^verbatim>\<open>io.EOF\<close>), whose suites are read, and whose context
  is not done while its four branches report. Then \<^verbatim>\<open>readResult\<close> returns a result,
  whatever the order of the branches; the name of every absent artifact is in its
  malformed list (\<^verbatim>\<open>started.json\<close> for an absent \<^verbatim>\<open>started.json\<close>); a finished record that
  is there and the suites are in the result; and the reader hands the result to
  \<^verbatim>\<open>convertResult\<close>, whose column is the build's column.
\<close>

theorem readResult_absent_is_soft:
  assumes pod: "absent (fetchPodInfo d) \<or> present (fetchPodInfo d) \<or> fetchPodInfo d = NilNil"
    and st: "absent (fetchStarted d) \<or> present (fetchStarted d)"
    and fin: "absent (fetchFinished d) \<or> present (fetchFinished d)"
    and su: "readSuites d = Inr ss"
    and dl: "deadline d = None"
  shows "\<exists>r. readResult d b = Inr r
           \<and> (absent (fetchStarted d) \<longrightarrow> ''started.json'' \<in> set (malformed r))
           \<and> (absent (fetchFinished d) \<longrightarrow> ''finished.json'' \<in> set (malformed r))
           \<and> (absent (fetchPodInfo d) \<longrightarrow> ''podinfo.json'' \<in> set (malformed r))
           \<and> (\<forall>f. fetchFinished d = Fetched f \<longrightarrow> finished r = f)
           \<and> suites r = ss
           \<and> (\<forall>client convertResult grp. client b = d \<longrightarrow>
                readBuild client convertResult grp b
                = (case convertResult (makeNameConfig grp) (pathBase (object (Path b)))
                          (map ConfigurationValue (ColumnHeader grp)) r (makeOptions grp) of
                     Inl err \<Rightarrow> Inl (Wrap (''convert '' @ pathString (Path b) @ '': '') err)
                   | Inr col \<Rightarrow> Inr col))"
proof -
  let ?F = "fold (\<lambda>br r. fst (download d b br r)) (arrivalOrder d) (newResult b)"
  let ?r = "?F\<lparr>malformed := sort (malformed ?F)\<rparr>"
  have p: "report d b PodInfoB = None"
    using pod by (cases "fetchPodInfo d") (auto simp: report_def)
  have all: "\<forall>br\<in>set (arrivalOrder d). report d b br = None"
    unfolding arrivalOrder_set using p st fin su
    by (auto simp: report_fetch(2,3) report_suites)
  have rr: "readResult d b = Inr ?r" by (rule readResult_all_soft[OF all dl])
  have mem: "\<And>br. br \<in> set (arrivalOrder d)" unfolding arrivalOrder_set
    by (metis branch.exhaust insertCI)
  have m1: "absent (fetchStarted d) \<longrightarrow> ''started.json'' \<in> set (malformed ?r)"
  proof
    assume a: "absent (fetchStarted d)"
    have "''started.json'' \<in> set (malformed ?F)"
      by (rule fold_download_malformed_mem[OF mem[of StartedB]])
         (use a in \<open>cases "fetchStarted d"; simp add: addMalformed_def\<close>)
    then show "''started.json'' \<in> set (malformed ?r)" by simp
  qed
  have m2: "absent (fetchFinished d) \<longrightarrow> ''finished.json'' \<in> set (malformed ?r)"
  proof
    assume a: "absent (fetchFinished d)"
    have "''finished.json'' \<in> set (malformed ?F)"
      by (rule fold_download_malformed_mem[OF mem[of FinishedB]])
         (use a in \<open>cases "fetchFinished d"; simp add: addMalformed_def\<close>)
    then show "''finished.json'' \<in> set (malformed ?r)" by simp
  qed
  have m3: "absent (fetchPodInfo d) \<longrightarrow> ''podinfo.json'' \<in> set (malformed ?r)"
  proof
    assume a: "absent (fetchPodInfo d)"
    have "''podinfo.json'' \<in> set (malformed ?F)"
      by (rule fold_download_malformed_mem[OF mem[of PodInfoB]])
         (use a in \<open>cases "fetchPodInfo d"; simp add: addMalformed_def\<close>)
    then show "''podinfo.json'' \<in> set (malformed ?r)" by simp
  qed
  have f1: "\<forall>f. fetchFinished d = Fetched f \<longrightarrow> finished ?r = f"
    using fold_download_field[OF arrivalOrder_distinct mem[of FinishedB], of d _ b "newResult b" ss]
    by simp
  have f2: "suites ?r = ss"
    using fold_download_field[OF arrivalOrder_distinct mem[of SuitesB], of d _ b "newResult b" ss] su
    by simp
  have f3: "\<forall>client convertResult grp. client b = d \<longrightarrow>
                readBuild client convertResult grp b
                = (case convertResult (makeNameConfig grp) (pathBase (object (Path b)))
                          (map ConfigurationValue (ColumnHeader grp)) ?r (makeOptions grp) of
                     Inl err \<Rightarrow> Inl (Wrap (''convert '' @ pathString (Path b) @ '': '') err)
                   | Inr col \<Rightarrow> Inr col)"
    using rr by (simp add: readBuild_def Let_def)
  show ?thesis using rr m1 m2 m3 f1 f2 f3 by blast
qed


text \<open>
  The theorem at a build with pod info, no \<^verbatim>\<open>started.json\<close>, a \<^verbatim>\<open>finished.json\<close> and one suite
  file, the suites branch reporting first.
\<close>

theorem readResult_absent_is_soft_witness:
  "readResult
     \<lparr>fetchPodInfo = Fetched ''pod'', fetchStarted = Failed EOF, fetchFinished = Fetched ''fin'',
      listArtifacts = None, downloadSuites = None,
      suitesEvents = [SuiteRecv \<lparr>Suites = [''t1''], SuitesPath = ''junit.xml''\<rparr>,
                      ListReport, DownloadReport],
      arrival = [SuitesB, StartedB], deadline = None, ctxErr = Canceled\<rparr>
     \<lparr>Path = \<lparr>bucket = ''bucket'', object = ''logs/job/12/''\<rparr>, Job = ''job'', BuildID = ''12''\<rparr>
   = Inr \<lparr>podInfo = ''pod'', started = [], finished = ''fin'',
          suites = [\<lparr>Suites = [''t1''], SuitesPath = ''junit.xml''\<rparr>],
          job = ''job'', build = ''12'', malformed = [''started.json'']\<rparr>"
proof -
  let ?d = "\<lparr>fetchPodInfo = Fetched ''pod'', fetchStarted = Failed EOF, fetchFinished = Fetched ''fin'',
      listArtifacts = None, downloadSuites = None,
      suitesEvents = [SuiteRecv \<lparr>Suites = [''t1''], SuitesPath = ''junit.xml''\<rparr>,
                      ListReport, DownloadReport],
      arrival = [SuitesB, StartedB], deadline = None, ctxErr = Canceled\<rparr>"
  let ?b = "\<lparr>Path = \<lparr>bucket = ''bucket'', object = ''logs/job/12/''\<rparr>, Job = ''job'', BuildID = ''12''\<rparr>"
  have su: "readSuites ?d = Inr [\<lparr>Suites = [''t1''], SuitesPath = ''junit.xml''\<rparr>]"
    by (simp add: readSuites_def Truncate_def numeral_2_eq_2)
  have pod: "absent (fetchPodInfo ?d) \<or> present (fetchPodInfo ?d) \<or> fetchPodInfo ?d = NilNil"
    by simp
  have st: "absent (fetchStarted ?d) \<or> present (fetchStarted ?d)" by simp
  have fin: "absent (fetchFinished ?d) \<or> present (fetchFinished ?d)" by simp
  have dl: "deadline ?d = None" by simp
  from readResult_absent_is_soft[OF pod st fin su dl, of ?b]
  have "\<exists>r. readResult ?d ?b = Inr r \<and> ''started.json'' \<in> set (malformed r)"
    by auto
  moreover have "readResult ?d ?b = Inr \<lparr>podInfo = ''pod'', started = [], finished = ''fin'',
          suites = [\<lparr>Suites = [''t1''], SuitesPath = ''junit.xml''\<rparr>],
          job = ''job'', build = ''12'', malformed = [''started.json'']\<rparr>"
    by (simp add: readResult_def arrivalOrder_def newResult_def addMalformed_def su)
  ultimately show ?thesis by simp
qed

text \<open>
  C7. Whenever \<^verbatim>\<open>readSuites\<close> returns suites, they are the first suites that arrived on
  \<^verbatim>\<open>suitesChan\<close>, each truncated to 1000 before it was appended: none has more than 1000
  cases, and a truncated suite has 1000 cases or all of its own, whichever is fewer. No
  error comes from the truncation.
\<close>

theorem readSuites_truncates_cases:
  assumes "readSuites d = Inr ss"
  shows "(\<exists>k. ss = map (Truncate 1000) (take k (received (suitesEvents d))))
       \<and> (\<forall>s\<in>set ss. length (Suites s) \<le> 1000)
       \<and> (\<forall>suite. length (Suites (Truncate 1000 suite)) = min 1000 (length (Suites suite)))"
proof -
  from readSuites_loop_shape[of d 2 "[]" "suitesEvents d" ss] assms
  obtain k where k: "ss = map (Truncate 1000) (take k (received (suitesEvents d)))"
    by (auto simp: readSuites_def)
  then have "\<forall>s\<in>set ss. length (Suites s) \<le> 1000" by (auto simp: Truncate_def)
  moreover have "\<forall>suite. length (Suites (Truncate 1000 suite)) = min 1000 (length (Suites suite))"
    by (simp add: Truncate_def min.commute)
  ultimately show ?thesis using k by blast
qed

text \<open>
  The theorem at one suites file of 1500 cases: the suite returned has exactly 1000.
\<close>

theorem readSuites_truncates_cases_witness:
  "readSuites
     \<lparr>fetchPodInfo = NilNil, fetchStarted = NilNil, fetchFinished = NilNil,
      listArtifacts = None, downloadSuites = None,
      suitesEvents = [SuiteRecv \<lparr>Suites = replicate 1500 ''case'', SuitesPath = ''junit.xml''\<rparr>,
                      ListReport, DownloadReport],
      arrival = [], deadline = None, ctxErr = Canceled\<rparr>
   = Inr [\<lparr>Suites = replicate 1000 ''case'', SuitesPath = ''junit.xml''\<rparr>]
   \<and> length (Suites \<lparr>Suites = replicate 1000 ''case'', SuitesPath = ''junit.xml''\<rparr>) = 1000
   \<and> length (replicate 1500 ''case'') = 1500"
proof -
  let ?d = "\<lparr>fetchPodInfo = NilNil, fetchStarted = NilNil, fetchFinished = NilNil,
      listArtifacts = None, downloadSuites = None,
      suitesEvents = [SuiteRecv \<lparr>Suites = replicate 1500 ''case'', SuitesPath = ''junit.xml''\<rparr>,
                      ListReport, DownloadReport],
      arrival = [], deadline = None, ctxErr = Canceled\<rparr>"
  have e: "readSuites ?d = Inr [\<lparr>Suites = replicate 1000 ''case'', SuitesPath = ''junit.xml''\<rparr>]"
    by (simp add: readSuites_def Truncate_def numeral_2_eq_2)
  from readSuites_truncates_cases[OF e] e show ?thesis by simp
qed

subsection \<open>Runs of \<^verbatim>\<open>readColumns\<close>\<close>

lemma wgDone_fields [simp]:
  "phase (wgDone s) = phase s" "remaining (wgDone s) = remaining s"
  "parentDone (wgDone s) = parentDone s" "cancelled (wgDone s) = cancelled s"
  "dispatcher (wgDone s) = dispatcher s" "nextIdx (wgDone s) = nextIdx s"
  "workers (wgDone s) = workers s" "waiting (wgDone s) = waiting s"
  "holder (wgDone s) = holder s" "maxIdx (wgDone s) = maxIdx s" "cols (wgDone s) = cols s"
  "goroutines (wgDone s) = goroutines s" "reads (wgDone s) = reads s"
  "converted (wgDone s) = converted s" "discovered (wgDone s) = discovered s"
  "wg (wgDone s) = wg s - 1"
  by (simp_all add: wgDone_def)

lemma wgDone_result:
  "result (wgDone s)
   = (if wg s - 1 < 0 then Some (Inl (Panic ''sync: negative WaitGroup counter'')) else result s)"
  by (simp add: wgDone_def)

lemma shrink_le: "shrink idx m \<le> m" "shrink idx m \<le> Suc idx"
  by (simp_all add: shrink_def)

lemma shrink_cases: "shrink idx m = m \<or> shrink idx m = Suc idx"
  by (simp add: shrink_def)

lemmas act_defs = addWorkers_def vend_def dispatcherReturn_def seeClosed_def quit_def
  report_ec_def drainDone_def cancel_def return_def lock_def signal_def unblock_def

lemma inv_bounds_finish: "inv_bounds cfg s \<Longrightarrow> inv_bounds cfg (finish cfg w s)"
  unfolding inv_bounds_def finish_def
  by (auto simp: Let_def nth_list_update split: worker.splits sum.splits)

lemma inv_bounds_step: "inv_bounds cfg s \<Longrightarrow> inv_bounds cfg (step cfg a s)"
proof (cases a)
  case (Finish w)
  assume "inv_bounds cfg s"
  then show ?thesis using Finish by (simp add: step_def inv_bounds_finish)
next
  case (Vend w)
  assume "inv_bounds cfg s"
  then show ?thesis using Vend
    by (auto simp: step_def vend_def inv_bounds_def nth_list_update less_Suc_eq)
next
  case (Lock i)
  assume "inv_bounds cfg s"
  then show ?thesis using Lock shrink_le(1)[of i "maxIdx s"]
    by (auto simp: step_def lock_def inv_bounds_def)
next
  case Signal
  assume "inv_bounds cfg s"
  then show ?thesis using Signal
    by (auto simp: step_def signal_def inv_bounds_def split: option.splits
          intro: order_trans[OF shrink_le(1)])
next
  case Unblock
  assume "inv_bounds cfg s"
  then show ?thesis using Unblock
    by (auto simp: step_def unblock_def inv_bounds_def split: option.splits
          intro: order_trans[OF shrink_le(1)])
next
  case (SeeClosed w)
  assume "inv_bounds cfg s"
  then show ?thesis using SeeClosed
    by (auto simp: step_def seeClosed_def inv_bounds_def nth_list_update)
next
  case (Quit w)
  assume "inv_bounds cfg s"
  then show ?thesis using Quit
    by (auto simp: step_def quit_def inv_bounds_def nth_list_update)
next
  case (Report w)
  assume "inv_bounds cfg s"
  then show ?thesis using Report
    by (auto simp: step_def report_ec_def inv_bounds_def nth_list_update Let_def
          split: worker.splits option.splits)
qed (auto simp: step_def act_defs inv_bounds_def)

lemma inv_detect_finish: "inv_detect cfg s \<Longrightarrow> inv_detect cfg (finish cfg w s)"
  unfolding inv_detect_def finish_def
  by (auto simp: Let_def split: worker.splits sum.splits)

lemma inv_detect_lock: "inv_detect cfg s \<Longrightarrow> inv_detect cfg (lock cfg idx s)"
proof -
  assume a: "inv_detect cfg s"
  show ?thesis
  proof (cases "holder s = None \<and> idx \<in> set (waiting s)")
    case False
    then show ?thesis using a by (auto simp: lock_def)
  next
    case True
    have sub: "set (remove1 idx (waiting s)) \<subseteq> set (discovered s)"
      using a set_remove1_subset[of idx "waiting s"] by (auto simp: inv_detect_def)
    have idx: "idx \<in> set (discovered s)" using a True by (auto simp: inv_detect_def)
    have keep: "\<And>i. i \<in> set (waiting s) \<Longrightarrow> i \<noteq> idx \<Longrightarrow> i \<in> set (remove1 idx (waiting s))"
      by simp
    show ?thesis
    proof (cases "maxIdx s = length (builds cfg)")
      case m: True
      have "\<forall>i\<in>set (discovered s). i \<in> set (remove1 idx (waiting s)) \<or> Some idx = Some i
              \<or> maxIdx s \<le> Suc i"
      proof
        fix i assume i: "i \<in> set (discovered s)"
        have "i \<in> set (waiting s) \<or> holder s = Some i \<or> maxIdx s \<le> Suc i"
          using a i by (auto simp: inv_detect_def)
        then show "i \<in> set (remove1 idx (waiting s)) \<or> Some idx = Some i \<or> maxIdx s \<le> Suc i"
          using True keep[of i] by (cases "i = idx") auto
      qed
      then show ?thesis using a True m sub idx by (simp add: lock_def inv_detect_def)
    next
      case m: False
      have c1: "\<forall>i\<in>set (discovered s). i \<in> set (remove1 idx (waiting s)) \<or> holder s = Some i
              \<or> shrink idx (maxIdx s) \<le> Suc i"
      proof
        fix i assume i: "i \<in> set (discovered s)"
        show "i \<in> set (remove1 idx (waiting s)) \<or> holder s = Some i \<or> shrink idx (maxIdx s) \<le> Suc i"
        proof (cases "i = idx")
          case True
          then show ?thesis using shrink_le(2)[of idx "maxIdx s"] by simp
        next
          case False
          have "i \<in> set (waiting s) \<or> holder s = Some i \<or> maxIdx s \<le> Suc i"
            using a i by (auto simp: inv_detect_def)
          then show ?thesis using keep[of i] False order_trans[OF shrink_le(1)[of idx "maxIdx s"]]
            by auto
        qed
      qed
      have c2: "shrink idx (maxIdx s) = length (builds cfg)
                \<or> (\<exists>i\<in>set (discovered s). shrink idx (maxIdx s) = Suc i)"
        using shrink_cases[of idx "maxIdx s"] a idx by (auto simp: inv_detect_def)
      show ?thesis using a True m sub c1 c2 by (simp add: lock_def inv_detect_def)
    qed
  qed
qed

lemma inv_detect_release:
  assumes a: "inv_detect cfg s" and h: "holder s = Some idx"
  shows "inv_detect cfg (s\<lparr>holder := None, maxIdx := shrink idx (maxIdx s)\<rparr>)"
proof -
  have idx: "idx \<in> set (discovered s)" using a h by (auto simp: inv_detect_def)
  have c1: "\<forall>i\<in>set (discovered s). i \<in> set (waiting s) \<or> shrink idx (maxIdx s) \<le> Suc i"
  proof
    fix i assume i: "i \<in> set (discovered s)"
    have "i \<in> set (waiting s) \<or> holder s = Some i \<or> maxIdx s \<le> Suc i"
      using a i by (auto simp: inv_detect_def)
    then show "i \<in> set (waiting s) \<or> shrink idx (maxIdx s) \<le> Suc i"
      using h shrink_le(2)[of idx "maxIdx s"] order_trans[OF shrink_le(1)[of idx "maxIdx s"]]
      by auto
  qed
  have c2: "shrink idx (maxIdx s) = length (builds cfg)
            \<or> (\<exists>i\<in>set (discovered s). shrink idx (maxIdx s) = Suc i)"
    using shrink_cases[of idx "maxIdx s"] a idx by (auto simp: inv_detect_def)
  show ?thesis using a c1 c2 by (simp add: inv_detect_def)
qed

lemma inv_detect_frame:
  "inv_detect cfg s \<Longrightarrow> waiting s' = waiting s \<Longrightarrow> discovered s' = discovered s \<Longrightarrow>
   holder s' = holder s \<Longrightarrow> maxIdx s' = maxIdx s \<Longrightarrow> inv_detect cfg s'"
  by (simp add: inv_detect_def)

lemma inv_detect_step:
  assumes I: "inv_detect cfg s"
  shows "inv_detect cfg (step cfg a s)"
proof (cases a)
  case (Finish w)
  then show ?thesis using I by (simp add: step_def inv_detect_finish)
next
  case (Lock i)
  then show ?thesis using I by (simp add: step_def inv_detect_lock)
next
  case Signal
  show ?thesis
  proof (cases "holder s")
    case None
    then show ?thesis using I Signal by (simp add: step_def signal_def)
  next
    case (Some idx)
    have "inv_detect cfg (wgDone (s\<lparr>dispatcher := False, holder := None, maxIdx := shrink idx (maxIdx s)\<rparr>))"
      by (rule inv_detect_frame[OF inv_detect_release[OF I Some]]) simp_all
    then show ?thesis using I Signal Some by (simp add: step_def signal_def)
  qed
next
  case Unblock
  show ?thesis
  proof (cases "holder s")
    case None
    then show ?thesis using I Unblock by (simp add: step_def unblock_def)
  next
    case (Some idx)
    then show ?thesis using I Unblock inv_detect_release[OF I Some]
      by (simp add: step_def unblock_def)
  qed
next
  case (Report w)
  show ?thesis unfolding Report step_def report_ec_def
    by (auto simp: Let_def split: worker.splits option.splits
          intro!: inv_detect_frame[OF I])
next
  case ParentCancel
  show ?thesis unfolding ParentCancel step_def by (auto intro!: inv_detect_frame[OF I])
next
  case AddWorkers
  show ?thesis unfolding AddWorkers step_def addWorkers_def by (auto intro!: inv_detect_frame[OF I])
next
  case (Vend w)
  show ?thesis unfolding Vend step_def vend_def by (auto intro!: inv_detect_frame[OF I])
next
  case DispatcherReturn
  show ?thesis unfolding DispatcherReturn step_def dispatcherReturn_def
    by (auto intro!: inv_detect_frame[OF I])
next
  case (SeeClosed w)
  show ?thesis unfolding SeeClosed step_def seeClosed_def by (auto intro!: inv_detect_frame[OF I])
next
  case (Quit w)
  show ?thesis unfolding Quit step_def quit_def by (auto intro!: inv_detect_frame[OF I])
next
  case DrainDone
  show ?thesis unfolding DrainDone step_def drainDone_def by (auto intro!: inv_detect_frame[OF I])
next
  case Cancel
  show ?thesis unfolding Cancel step_def cancel_def by (auto intro!: inv_detect_frame[OF I])
next
  case Return
  show ?thesis unfolding Return step_def return_def by (auto intro!: inv_detect_frame[OF I])
qed

lemma inv_cols_frame:
  "inv_cols cfg s \<Longrightarrow> converted s' = converted s \<Longrightarrow> discovered s' = discovered s \<Longrightarrow>
   cols s' = cols s \<Longrightarrow> inv_cols cfg s'"
  by (simp add: inv_cols_def)

lemma inv_cols_finish:
  assumes a: "inv_cols cfg s" and b: "inv_bounds cfg s"
  shows "inv_cols cfg (finish cfg w s)"
proof (cases "w < length (workers s)")
  case False
  then show ?thesis using a by (simp add: finish_def)
next
  case True
  show ?thesis
  proof (cases "workers s ! w")
    case (Working idx)
    show ?thesis
    proof (cases "idx < length (builds cfg)")
      case False
      then show ?thesis using a True Working by (simp add: finish_def)
    next
      case lt: True
      then have lc: "idx < length (cols s)" using b by (simp add: inv_bounds_def)
      show ?thesis
      proof (cases "readB cfg (builds cfg ! idx)")
        case (Inl err)
        have "inv_cols cfg (s\<lparr>reads := reads s @ [builds cfg ! idx],
                 workers := (workers s)[w := Reporting (Some err)]\<rparr>)"
          by (rule inv_cols_frame[OF a]) simp_all
        then show ?thesis using True Working lt Inl by (simp add: finish_def Let_def)
      next
        case (Inr col)
        have same: "\<And>i. i \<in> set (converted s) \<Longrightarrow> (cols s)[idx := col] ! i = cols s ! i"
        proof -
          fix i assume i: "i \<in> set (converted s)"
          show "(cols s)[idx := col] ! i = cols s ! i"
          proof (cases "i = idx")
            case True
            then have "readB cfg (builds cfg ! idx) = Inr (cols s ! idx)"
              using a i by (auto simp: inv_cols_def)
            then show ?thesis using Inr True lc by simp
          next
            case False
            then show ?thesis by simp
          qed
        qed
        have c1: "\<forall>i\<in>set (converted s @ [idx]).
                    readB cfg (builds cfg ! i) = Inr ((cols s)[idx := col] ! i)"
          using a Inr lc same by (auto simp: inv_cols_def)
        have c2: "\<forall>i<length (builds cfg). i \<notin> set (converted s @ [idx]) \<longrightarrow>
                    (cols s)[idx := col] ! i = zeroColumn"
          using a by (auto simp: inv_cols_def)
        have c3: "\<And>ds. ds = (if int64_of (Started (Column col)) < stop cfg
                               then discovered s @ [idx] else discovered s) \<Longrightarrow>
                  (\<forall>i. i \<in> set ds \<longleftrightarrow> i \<in> set (converted s @ [idx])
                     \<and> int64_of (Started (Column ((cols s)[idx := col] ! i))) < stop cfg)"
        proof -
          fix ds assume ds: "ds = (if int64_of (Started (Column col)) < stop cfg
                               then discovered s @ [idx] else discovered s)"
          show "\<forall>i. i \<in> set ds \<longleftrightarrow> i \<in> set (converted s @ [idx])
                     \<and> int64_of (Started (Column ((cols s)[idx := col] ! i))) < stop cfg"
          proof
            fix i
            show "i \<in> set ds \<longleftrightarrow> i \<in> set (converted s @ [idx])
                     \<and> int64_of (Started (Column ((cols s)[idx := col] ! i))) < stop cfg"
            proof (cases "i = idx")
              case True
              have "idx \<in> set (discovered s) \<Longrightarrow> int64_of (Started (Column col)) < stop cfg"
              proof -
                assume "idx \<in> set (discovered s)"
                then have "idx \<in> set (converted s)
                           \<and> int64_of (Started (Column (cols s ! idx))) < stop cfg"
                  using a by (auto simp: inv_cols_def)
                then show ?thesis using same[of idx] lc by simp
              qed
              then show ?thesis using True ds lc by auto
            next
              case False
              have "i \<in> set (discovered s) \<longleftrightarrow> i \<in> set (converted s)
                     \<and> int64_of (Started (Column (cols s ! i))) < stop cfg"
                using a by (auto simp: inv_cols_def)
              then show ?thesis using False ds by auto
            qed
          qed
        qed
        show ?thesis
        proof (cases "int64_of (Started (Column col)) < stop cfg")
          case old: True
          from c3[of "discovered s @ [idx]"] old
          have "\<forall>i. i \<in> set (discovered s @ [idx]) \<longleftrightarrow> i \<in> set (converted s @ [idx])
                     \<and> int64_of (Started (Column ((cols s)[idx := col] ! i))) < stop cfg"
            by simp
          then show ?thesis using True Working lt Inr c1 c2 old
            by (simp add: finish_def Let_def inv_cols_def)
        next
          case new: False
          from c3[of "discovered s"] new
          have "\<forall>i. i \<in> set (discovered s) \<longleftrightarrow> i \<in> set (converted s @ [idx])
                     \<and> int64_of (Started (Column ((cols s)[idx := col] ! i))) < stop cfg"
            by simp
          then show ?thesis using True Working lt Inr c1 c2 new
            by (simp add: finish_def Let_def inv_cols_def)
        qed
      qed
    qed
  qed (use a True in \<open>simp_all add: finish_def\<close>)
qed

lemma inv_cols_step:
  assumes I: "inv_cols cfg s" and B: "inv_bounds cfg s"
  shows "inv_cols cfg (step cfg a s)"
proof (cases a)
  case (Finish w)
  then show ?thesis using I B by (simp add: step_def inv_cols_finish)
next
  case (Report w)
  show ?thesis unfolding Report step_def report_ec_def
    by (auto simp: Let_def split: worker.splits option.splits
          intro!: inv_cols_frame[OF I])
next
  case Signal
  show ?thesis unfolding Signal step_def signal_def
    by (auto split: option.splits intro!: inv_cols_frame[OF I])
next
  case Unblock
  show ?thesis unfolding Unblock step_def unblock_def
    by (auto split: option.splits intro!: inv_cols_frame[OF I])
next
  case ParentCancel
  show ?thesis unfolding ParentCancel step_def by (auto intro!: inv_cols_frame[OF I])
next
  case AddWorkers
  show ?thesis unfolding AddWorkers step_def addWorkers_def by (auto intro!: inv_cols_frame[OF I])
next
  case (Vend w)
  show ?thesis unfolding Vend step_def vend_def by (auto intro!: inv_cols_frame[OF I])
next
  case DispatcherReturn
  show ?thesis unfolding DispatcherReturn step_def dispatcherReturn_def
    by (auto intro!: inv_cols_frame[OF I])
next
  case (SeeClosed w)
  show ?thesis unfolding SeeClosed step_def seeClosed_def by (auto intro!: inv_cols_frame[OF I])
next
  case (Quit w)
  show ?thesis unfolding Quit step_def quit_def by (auto intro!: inv_cols_frame[OF I])
next
  case DrainDone
  show ?thesis unfolding DrainDone step_def drainDone_def by (auto intro!: inv_cols_frame[OF I])
next
  case Cancel
  show ?thesis unfolding Cancel step_def cancel_def by (auto intro!: inv_cols_frame[OF I])
next
  case Return
  show ?thesis unfolding Return step_def return_def by (auto intro!: inv_cols_frame[OF I])
next
  case (Lock i)
  show ?thesis unfolding Lock step_def lock_def by (auto intro!: inv_cols_frame[OF I])
qed

lemma inv_final_None: "\<forall>cs. result s \<noteq> Some (Inr cs) \<Longrightarrow> inv_final s"
  by (simp add: inv_final_def)

lemma finish_result [simp]: "result (finish cfg w s) = result s"
  by (simp add: finish_def Let_def split: worker.splits sum.splits)

lemma step_result_Inr:
  assumes n: "result s = None" and r: "result (step cfg a s) = Some (Inr cs)"
  shows "a = Return \<and> step cfg a s = s\<lparr>result := Some (Inr (take (maxIdx s) (cols s)))\<rparr>
   \<and> phase s = Waiting \<and> wg s = 0 \<and> waiting s = [] \<and> holder s = None"
proof (cases a)
  case Return
  then show ?thesis using n r by (simp add: step_def return_def split: if_splits)
next
  case ParentCancel
  then show ?thesis using n r by (simp add: step_def)
next
  case AddWorkers
  then show ?thesis using n r by (simp add: step_def addWorkers_def split: if_splits)
next
  case (Vend w)
  then show ?thesis using n r by (simp add: step_def vend_def split: if_splits)
next
  case DispatcherReturn
  then show ?thesis using n r
    by (simp add: step_def dispatcherReturn_def wgDone_result split: if_splits)
next
  case (SeeClosed w)
  then show ?thesis using n r by (simp add: step_def seeClosed_def split: if_splits)
next
  case (Quit w)
  then show ?thesis using n r by (simp add: step_def quit_def wgDone_result split: if_splits)
next
  case (Finish w)
  then show ?thesis using n r by (simp add: step_def)
next
  case (Report w)
  then show ?thesis using n r
    by (simp add: step_def report_ec_def wgDone_result Let_def
          split: if_splits worker.splits option.splits)
next
  case DrainDone
  then show ?thesis using n r by (simp add: step_def drainDone_def split: if_splits)
next
  case Cancel
  then show ?thesis using n r by (simp add: step_def cancel_def split: if_splits)
next
  case (Lock i)
  then show ?thesis using n r by (simp add: step_def lock_def split: if_splits)
next
  case Signal
  then show ?thesis using n r
    by (simp add: step_def signal_def wgDone_result split: if_splits option.splits)
next
  case Unblock
  then show ?thesis using n r
    by (simp add: step_def unblock_def split: if_splits option.splits)
qed

lemma inv_final_step: "inv_final s \<Longrightarrow> inv_final (step cfg a s)"
proof (cases "result s = None")
  case False
  assume "inv_final s"
  then show ?thesis using False by (simp add: step_def)
next
  case True
  show ?thesis unfolding inv_final_def
  proof (intro allI impI)
    fix cs assume r: "result (step cfg a s) = Some (Inr cs)"
    from step_result_Inr[OF True r] r
    show "cs = take (maxIdx (step cfg a s)) (cols (step cfg a s)) \<and> waiting (step cfg a s) = []
          \<and> holder (step cfg a s) = None \<and> phase (step cfg a s) = Waiting"
      by auto
  qed
qed

lemma some_update_old:
  assumes "some P (ws[k := x])" and "\<not> P x"
  shows "some P ws"
proof -
  from assms(1) obtain w where w: "w < length ws" "P (ws[k := x] ! w)"
    by (auto simp: some_def)
  then have "w \<noteq> k" using assms(2) by auto
  then have "P (ws ! w)" using w by simp
  then show ?thesis using w(1) by (auto simp: some_def)
qed

lemma some_update_keep:
  assumes "some P ws" and "P (ws ! k) \<Longrightarrow> P x"
  shows "some P (ws[k := x])"
proof -
  from assms(1) obtain w where w: "w < length ws" "P (ws ! w)"
    by (auto simp: some_def)
  have "P (ws[k := x] ! w)"
  proof (cases "w = k")
    case True
    then show ?thesis using w assms(2) by simp
  next
    case False
    then show ?thesis using w by simp
  qed
  then show ?thesis using w(1) by (auto simp: some_def)
qed

lemma some_update_new: "k < length ws \<Longrightarrow> P x \<Longrightarrow> some P (ws[k := x])"
  by (auto simp: some_def nth_list_update)

lemma some_replicate: "\<not> P x \<Longrightarrow> \<not> some P (replicate n x)"
  by (auto simp: some_def)

lemma some_Nil [simp]: "\<not> some P []"
  by (simp add: some_def)

lemma count_update_same:
  "k < length ws \<Longrightarrow> ws ! k \<noteq> x \<Longrightarrow> count_list (ws[k := x]) x = Suc (count_list ws x)"
proof (induction ws arbitrary: k)
  case Nil
  then show ?case by simp
next
  case (Cons a ws)
  then show ?case by (cases k) auto
qed

lemma count_update_other:
  "ws ! k \<noteq> x \<Longrightarrow> y \<noteq> x \<Longrightarrow> count_list (ws[k := y]) x = count_list ws x"
proof (induction ws arbitrary: k)
  case Nil
  then show ?case by simp
next
  case (Cons a ws)
  then show ?case by (cases k) auto
qed

lemma count_full: "length ws \<le> count_list ws x \<Longrightarrow> w < length ws \<Longrightarrow> ws ! w = x"
proof (induction ws arbitrary: w)
  case Nil
  then show ?case by simp
next
  case (Cons a ws)
  have le: "count_list ws x \<le> length ws" by (rule count_le_length)
  show ?case
  proof (cases "a = x")
    case True
    then have "length ws \<le> count_list ws x" using Cons.prems(1) by simp
    then show ?thesis using Cons True by (cases w) auto
  next
    case False
    then show ?thesis using Cons.prems(1) le by simp
  qed
qed

lemma inv_workers_frame:
  "inv_workers cfg s \<Longrightarrow> phase s' = phase s \<Longrightarrow> workers s' = workers s \<Longrightarrow>
   remaining s' = remaining s \<Longrightarrow> dispatcher s' = dispatcher s \<Longrightarrow> cancelled s' = cancelled s \<Longrightarrow>
   inv_workers cfg s'"
  unfolding inv_workers_def by metis

lemma inv_workers_update:
  assumes I: "inv_workers cfg s" and x: "x \<noteq> Reported" and o: "workers s ! w \<noteq> Reported"
    and c: "closedW x \<Longrightarrow> \<not> dispatcher s"
  shows "inv_workers cfg (s\<lparr>workers := (workers s)[w := x]\<rparr>)"
proof -
  have cnt: "count_list ((workers s)[w := x]) Reported = count_list (workers s) Reported"
    using x o by (simp add: count_update_other)
  have cl: "some closedW ((workers s)[w := x]) \<longrightarrow> \<not> dispatcher s"
    using I c some_update_old[of closedW "workers s" w x] by (auto simp: inv_workers_def)
  show ?thesis using I cnt cl by (auto simp: inv_workers_def)
qed

lemma inv_workers_step:
  assumes I: "inv_workers cfg s" and c: "0 < concurrency cfg"
  shows "inv_workers cfg (step cfg a s)"
proof (cases "result s = None")
  case False
  then show ?thesis using I by (simp add: step_def)
next
  case N: True
  show ?thesis
  proof (cases a)
    case ParentCancel
    show ?thesis using N unfolding ParentCancel step_def by (auto intro!: inv_workers_frame[OF I])
  next
    case AddWorkers
    have "\<not> some closedW (replicate (nat (concurrency cfg)) Receiving)"
      by (rule some_replicate) simp
    then show ?thesis using N I c unfolding AddWorkers step_def addWorkers_def
      by (auto simp: inv_workers_def)
  next
    case (Vend w)
    show ?thesis
    proof (cases "dispatcher s \<and> nextIdx s < length (builds cfg)
         \<and> w < length (workers s) \<and> workers s ! w = Receiving")
      case True
      have "inv_workers cfg (s\<lparr>workers := (workers s)[w := Working (nextIdx s)]\<rparr>)"
        by (rule inv_workers_update[OF I]) (use True in auto)
      then have "inv_workers cfg (s\<lparr>nextIdx := Suc (nextIdx s),
                   workers := (workers s)[w := Working (nextIdx s)]\<rparr>)"
        by (rule inv_workers_frame) simp_all
      then show ?thesis using N True Vend by (simp add: step_def vend_def)
    next
      case False
      then show ?thesis using N I Vend by (auto simp: step_def vend_def)
    qed
  next
    case DispatcherReturn
    show ?thesis using N I unfolding DispatcherReturn step_def dispatcherReturn_def
      by (auto simp: inv_workers_def)
  next
    case (SeeClosed w)
    show ?thesis
    proof (cases "\<not> dispatcher s \<and> w < length (workers s) \<and> workers s ! w = Receiving")
      case True
      have "inv_workers cfg (s\<lparr>workers := (workers s)[w := Reporting None]\<rparr>)"
        by (rule inv_workers_update[OF I]) (use True in auto)
      then show ?thesis using N True SeeClosed by (simp add: step_def seeClosed_def)
    next
      case False
      then show ?thesis using N I SeeClosed by (auto simp: step_def seeClosed_def)
    qed
  next
    case (Quit w)
    show ?thesis
    proof (cases "ctxDone s \<and> w < length (workers s)
         \<and> (case workers s ! w of Receiving \<Rightarrow> True | Reporting eo \<Rightarrow> True | _ \<Rightarrow> False)")
      case True
      have "inv_workers cfg (s\<lparr>workers := (workers s)[w := Gone]\<rparr>)"
        by (rule inv_workers_update[OF I]) (use True in \<open>auto split: worker.splits\<close>)
      then have "inv_workers cfg (wgDone (s\<lparr>workers := (workers s)[w := Gone]\<rparr>))"
        by (rule inv_workers_frame) simp_all
      then show ?thesis using N True Quit by (simp add: step_def quit_def)
    next
      case False
      have "quit w s = s" unfolding quit_def by (rule if_not_P[OF False])
      then show ?thesis using N I Quit by (simp add: step_def)
    qed
  next
    case (Finish w)
    show ?thesis
    proof (cases "w < length (workers s)")
      case False
      then show ?thesis using N I Finish by (simp add: step_def finish_def)
    next
      case True
      show ?thesis
      proof (cases "workers s ! w")
        case (Working idx)
        show ?thesis
        proof (cases "idx < length (builds cfg)")
          case False
          then show ?thesis using N I Finish True Working by (simp add: step_def finish_def)
        next
          case lt: True
          show ?thesis
          proof (cases "readB cfg (builds cfg ! idx)")
            case (Inl err)
            have "inv_workers cfg (s\<lparr>workers := (workers s)[w := Reporting (Some err)]\<rparr>)"
              by (rule inv_workers_update[OF I]) (use Working in auto)
            then have "inv_workers cfg (s\<lparr>reads := reads s @ [builds cfg ! idx],
                   workers := (workers s)[w := Reporting (Some err)]\<rparr>)"
              by (rule inv_workers_frame) simp_all
            then show ?thesis using N Finish True Working lt Inl
              by (simp add: step_def finish_def Let_def)
          next
            case (Inr col)
            have u: "inv_workers cfg (s\<lparr>workers := (workers s)[w := Receiving]\<rparr>)"
              by (rule inv_workers_update[OF I]) (use Working in auto)
            have "inv_workers cfg (finish cfg w s)"
              by (rule inv_workers_frame[OF u])
                 (use True Working lt Inr in \<open>simp_all add: finish_def Let_def\<close>)
            then show ?thesis using N Finish by (simp add: step_def)
          qed
        qed
      qed (use N I Finish True in \<open>simp_all add: step_def finish_def\<close>)
    qed
  next
    case (Report w)
    show ?thesis
    proof (cases "phase s = Draining \<and> 0 < remaining s \<and> w < length (workers s)")
      case False
      then show ?thesis using N I Report by (auto simp: step_def report_ec_def)
    next
      case True
      show ?thesis
      proof (cases "workers s ! w")
        case (Reporting eo)
        show ?thesis
        proof (cases eo)
          case None
          have nd: "\<not> dispatcher s"
            using I True Reporting None by (auto simp: inv_workers_def some_def)
          have cnt: "count_list ((workers s)[w := Reported]) Reported
                     = Suc (count_list (workers s) Reported)"
            using True Reporting by (simp add: count_update_same)
          have "inv_workers cfg (s\<lparr>workers := (workers s)[w := Reported],
                               remaining := remaining s - 1\<rparr>)"
            using I True nd cnt by (auto simp: inv_workers_def)
          then have "inv_workers cfg (wgDone (s\<lparr>workers := (workers s)[w := Reported],
                               remaining := remaining s - 1\<rparr>))"
            by (rule inv_workers_frame) simp_all
          then show ?thesis using N True Report Reporting None
            by (simp add: step_def report_ec_def)
        next
          case (Some err)
          have "inv_workers cfg (s\<lparr>workers := (workers s)[w := Gone]\<rparr>)"
            by (rule inv_workers_update[OF I]) (use Reporting in auto)
          then have w: "inv_workers cfg (wgDone (s\<lparr>workers := (workers s)[w := Gone]\<rparr>))"
            by (rule inv_workers_frame) simp_all
          then have "inv_workers cfg ((wgDone (s\<lparr>workers := (workers s)[w := Gone]\<rparr>))
                       \<lparr>result := Some (Inl err)\<rparr>)"
            by (rule inv_workers_frame) simp_all
          then show ?thesis using N True Report Reporting Some w
            by (simp add: step_def report_ec_def Let_def)
        qed
      qed (use N I Report True in \<open>simp_all add: step_def report_ec_def\<close>)
    qed
  next
    case DrainDone
    show ?thesis using N unfolding DrainDone step_def drainDone_def
      by (auto intro!: inv_workers_frame[OF I])
  next
    case Cancel
    show ?thesis using N I unfolding Cancel step_def cancel_def
      by (auto simp: inv_workers_def)
  next
    case Return
    show ?thesis using N unfolding Return step_def return_def
      by (auto intro!: inv_workers_frame[OF I])
  next
    case (Lock i)
    show ?thesis using N unfolding Lock step_def lock_def
      by (auto intro!: inv_workers_frame[OF I])
  next
    case Signal
    show ?thesis using N I unfolding Signal step_def signal_def
      by (auto simp: inv_workers_def split: option.splits)
  next
    case Unblock
    show ?thesis using N unfolding Unblock step_def unblock_def
      by (auto split: option.splits intro!: inv_workers_frame[OF I])
  qed
qed

lemma inv_vended_frame:
  "inv_vended s \<Longrightarrow> nextIdx s' = nextIdx s \<Longrightarrow> workers s' = workers s \<Longrightarrow>
   converted s' = converted s \<Longrightarrow> phase s' = phase s \<or> phase s' \<noteq> Spawning \<Longrightarrow> inv_vended s'"
  by (auto simp: inv_vended_def)

lemma inv_vended_update:
  assumes I: "inv_vended s" and o: "\<forall>i. workers s ! w \<noteq> Working i"
    and f: "failedW (workers s ! w) \<Longrightarrow> failedW x"
  shows "inv_vended (s\<lparr>workers := (workers s)[w := x]\<rparr>)"
  unfolding inv_vended_def
proof (rule conjI)
  show "phase (s\<lparr>workers := (workers s)[w := x]\<rparr>) = Spawning \<longrightarrow>
          nextIdx (s\<lparr>workers := (workers s)[w := x]\<rparr>) = 0
             \<and> workers (s\<lparr>workers := (workers s)[w := x]\<rparr>) = []"
    using I by (simp add: inv_vended_def)
next
  show "\<forall>i<nextIdx (s\<lparr>workers := (workers s)[w := x]\<rparr>).
          some (\<lambda>x. x = Working i) (workers (s\<lparr>workers := (workers s)[w := x]\<rparr>))
          \<or> i \<in> set (converted (s\<lparr>workers := (workers s)[w := x]\<rparr>))
          \<or> some failedW (workers (s\<lparr>workers := (workers s)[w := x]\<rparr>))"
  proof (intro allI impI)
  fix i assume "i < nextIdx (s\<lparr>workers := (workers s)[w := x]\<rparr>)"
  then have "some (\<lambda>x. x = Working i) (workers s) \<or> i \<in> set (converted s)
                      \<or> some failedW (workers s)"
    using I by (simp add: inv_vended_def)
  then show "some (\<lambda>x. x = Working i) (workers (s\<lparr>workers := (workers s)[w := x]\<rparr>))
          \<or> i \<in> set (converted (s\<lparr>workers := (workers s)[w := x]\<rparr>))
          \<or> some failedW (workers (s\<lparr>workers := (workers s)[w := x]\<rparr>))"
    using some_update_keep[of "\<lambda>x. x = Working i" "workers s" w x]
          some_update_keep[of failedW "workers s" w x] o f
    by auto
  qed
qed

lemma inv_vended_step:
  assumes I: "inv_vended s"
  shows "inv_vended (step cfg a s)"
proof (cases "result s = None")
  case False
  then show ?thesis using I by (simp add: step_def)
next
  case N: True
  show ?thesis
  proof (cases a)
    case ParentCancel
    show ?thesis using N unfolding ParentCancel step_def by (auto intro!: inv_vended_frame[OF I])
  next
    case AddWorkers
    show ?thesis using N I unfolding AddWorkers step_def addWorkers_def
      by (auto simp: inv_vended_def some_def)
  next
    case (Vend w)
    show ?thesis
    proof (cases "dispatcher s \<and> nextIdx s < length (builds cfg)
         \<and> w < length (workers s) \<and> workers s ! w = Receiving")
      case False
      have "vend cfg w s = s" unfolding vend_def by (rule if_not_P[OF False])
      then show ?thesis using N I Vend by (simp add: step_def)
    next
      case True
      have u: "inv_vended (s\<lparr>workers := (workers s)[w := Working (nextIdx s)]\<rparr>)"
        by (rule inv_vended_update[OF I]) (use True in auto)
      have new: "some (\<lambda>x. x = Working (nextIdx s)) ((workers s)[w := Working (nextIdx s)])"
        by (rule some_update_new) (use True in auto)
      have "inv_vended (s\<lparr>nextIdx := Suc (nextIdx s),
                   workers := (workers s)[w := Working (nextIdx s)]\<rparr>)"
        using u new by (auto simp: inv_vended_def less_Suc_eq)
      then show ?thesis using N True Vend by (simp add: step_def vend_def)
    qed
  next
    case DispatcherReturn
    show ?thesis using N unfolding DispatcherReturn step_def dispatcherReturn_def
      by (auto intro!: inv_vended_frame[OF I])
  next
    case (SeeClosed w)
    show ?thesis
    proof (cases "\<not> dispatcher s \<and> w < length (workers s) \<and> workers s ! w = Receiving")
      case False
      have "seeClosed w s = s" unfolding seeClosed_def by (rule if_not_P[OF False])
      then show ?thesis using N I SeeClosed by (simp add: step_def)
    next
      case True
      have "inv_vended (s\<lparr>workers := (workers s)[w := Reporting None]\<rparr>)"
        by (rule inv_vended_update[OF I]) (use True in auto)
      then show ?thesis using N True SeeClosed by (simp add: step_def seeClosed_def)
    qed
  next
    case (Quit w)
    show ?thesis
    proof (cases "ctxDone s \<and> w < length (workers s)
         \<and> (case workers s ! w of Receiving \<Rightarrow> True | Reporting eo \<Rightarrow> True | _ \<Rightarrow> False)")
      case False
      have "quit w s = s" unfolding quit_def by (rule if_not_P[OF False])
      then show ?thesis using N I Quit by (simp add: step_def)
    next
      case True
      have "inv_vended (s\<lparr>workers := (workers s)[w := Gone]\<rparr>)"
        by (rule inv_vended_update[OF I]) (use True in \<open>auto split: worker.splits\<close>)
      then have "inv_vended (wgDone (s\<lparr>workers := (workers s)[w := Gone]\<rparr>))"
        by (rule inv_vended_frame) simp_all
      then show ?thesis using N True Quit by (simp add: step_def quit_def)
    qed
  next
    case (Finish w)
    show ?thesis
    proof (cases "w < length (workers s)")
      case False
      then show ?thesis using N I Finish by (simp add: step_def finish_def)
    next
      case True
      show ?thesis
      proof (cases "workers s ! w")
        case (Working idx)
        show ?thesis
        proof (cases "idx < length (builds cfg)")
          case False
          then show ?thesis using N I Finish True Working by (simp add: step_def finish_def)
        next
          case lt: True
          show ?thesis
          proof (cases "readB cfg (builds cfg ! idx)")
            case (Inl err)
            have "some failedW ((workers s)[w := Reporting (Some err)])"
              by (rule some_update_new) (use True in auto)
            then have "inv_vended (finish cfg w s)"
              using I True Working lt Inl by (auto simp: finish_def Let_def inv_vended_def)
            then show ?thesis using N Finish by (simp add: step_def)
          next
            case (Inr col)
            have "inv_vended (finish cfg w s)"
              unfolding inv_vended_def
            proof (rule conjI)
              have "phase (finish cfg w s) = phase s"
                using True Working lt Inr by (simp add: finish_def Let_def)
              then show "phase (finish cfg w s) = Spawning \<longrightarrow>
                           nextIdx (finish cfg w s) = 0 \<and> workers (finish cfg w s) = []"
                using I True by (auto simp: inv_vended_def)
            next
              show "\<forall>i<nextIdx (finish cfg w s).
                     some (\<lambda>x. x = Working i) (workers (finish cfg w s))
                   \<or> i \<in> set (converted (finish cfg w s))
                   \<or> some failedW (workers (finish cfg w s))"
              proof (intro allI impI)
              fix i assume "i < nextIdx (finish cfg w s)"
              then have i: "i < nextIdx s"
                using True Working lt Inr by (simp add: finish_def Let_def split: if_splits)
              have ws: "workers (finish cfg w s) = (workers s)[w := Receiving]"
                and cv: "converted (finish cfg w s) = converted s @ [idx]"
                using True Working lt Inr by (simp_all add: finish_def Let_def)
              from I i have "some (\<lambda>x. x = Working i) (workers s) \<or> i \<in> set (converted s)
                      \<or> some failedW (workers s)"
                by (simp add: inv_vended_def)
              then show "some (\<lambda>x. x = Working i) (workers (finish cfg w s))
                   \<or> i \<in> set (converted (finish cfg w s))
                   \<or> some failedW (workers (finish cfg w s))"
              proof (elim disjE)
                assume "some (\<lambda>x. x = Working i) (workers s)"
                then obtain w' where w': "w' < length (workers s)" "workers s ! w' = Working i"
                  by (auto simp: some_def)
                show ?thesis
                proof (cases "w' = w")
                  case True
                  then have "i = idx" using w' Working by simp
                  then show ?thesis using cv by simp
                next
                  case False
                  then have "(workers s)[w := Receiving] ! w' = Working i" using w' by simp
                  then have "some (\<lambda>x. x = Working i) ((workers s)[w := Receiving])"
                    using w'(1) by (auto simp: some_def)
                  then show ?thesis using ws by simp
                qed
              next
                assume "i \<in> set (converted s)"
                then show ?thesis using cv by simp
              next
                assume "some failedW (workers s)"
                then have "some failedW ((workers s)[w := Receiving])"
                  by (rule some_update_keep) (use Working in simp)
                then show ?thesis using ws by simp
              qed
              qed
            qed
            then show ?thesis using N Finish by (simp add: step_def)
          qed
        qed
      qed (use N I Finish True in \<open>simp_all add: step_def finish_def\<close>)
    qed
  next
    case (Report w)
    show ?thesis
    proof (cases "phase s = Draining \<and> 0 < remaining s \<and> w < length (workers s)")
      case False
      have "report_ec w s = s" unfolding report_ec_def by (rule if_not_P[OF False])
      then show ?thesis using N I Report by (simp add: step_def)
    next
      case True
      show ?thesis
      proof (cases "workers s ! w")
        case (Reporting eo)
        show ?thesis
        proof (cases eo)
          case None
          have "inv_vended (s\<lparr>workers := (workers s)[w := Reported]\<rparr>)"
            by (rule inv_vended_update[OF I]) (use Reporting None in auto)
          then have "inv_vended (wgDone (s\<lparr>workers := (workers s)[w := Reported],
                               remaining := remaining s - 1\<rparr>))"
            by (rule inv_vended_frame) simp_all
          then show ?thesis using N True Report Reporting None
            by (simp add: step_def report_ec_def)
        next
          case (Some err)
          have "inv_vended (s\<lparr>workers := (workers s)[w := Gone]\<rparr>)"
            by (rule inv_vended_update[OF I]) (use Reporting in auto)
          then have w: "inv_vended (wgDone (s\<lparr>workers := (workers s)[w := Gone]\<rparr>))"
            by (rule inv_vended_frame) simp_all
          then have "inv_vended ((wgDone (s\<lparr>workers := (workers s)[w := Gone]\<rparr>))
                       \<lparr>result := Some (Inl err)\<rparr>)"
            by (rule inv_vended_frame) simp_all
          then show ?thesis using N True Report Reporting Some w
            by (simp add: step_def report_ec_def Let_def)
        qed
      qed (use N I Report True in \<open>simp_all add: step_def report_ec_def\<close>)
    qed
  next
    case DrainDone
    show ?thesis using N unfolding DrainDone step_def drainDone_def
      by (auto intro!: inv_vended_frame[OF I])
  next
    case Cancel
    show ?thesis using N unfolding Cancel step_def cancel_def
      by (auto intro!: inv_vended_frame[OF I])
  next
    case Return
    show ?thesis using N unfolding Return step_def return_def
      by (auto intro!: inv_vended_frame[OF I])
  next
    case (Lock i)
    show ?thesis using N unfolding Lock step_def lock_def
      by (auto intro!: inv_vended_frame[OF I])
  next
    case Signal
    show ?thesis using N unfolding Signal step_def signal_def
      by (auto split: option.splits intro!: inv_vended_frame[OF I])
  next
    case Unblock
    show ?thesis using N unfolding Unblock step_def unblock_def
      by (auto split: option.splits intro!: inv_vended_frame[OF I])
  qed
qed

lemma inv_failed_frame:
  "inv_failed cfg s \<Longrightarrow> result s = None \<Longrightarrow> reads s' = reads s \<Longrightarrow> workers s' = workers s \<Longrightarrow>
   inv_failed cfg s'"
  by (simp add: inv_failed_def)

lemma inv_failed_update:
  assumes I: "inv_failed cfg s" and N: "result s = None"
    and f: "failedW (workers s ! w) \<Longrightarrow> failedW x"
  shows "inv_failed cfg (s\<lparr>workers := (workers s)[w := x]\<rparr>)"
  using I N some_update_keep[of failedW "workers s" w x] f
  by (auto simp: inv_failed_def)

lemma inv_failed_step:
  assumes I: "inv_failed cfg s" and V: "inv_vended s"
  shows "inv_failed cfg (step cfg a s)"
proof (cases "result s = None")
  case False
  then show ?thesis using I by (simp add: step_def)
next
  case N: True
  show ?thesis
  proof (cases a)
    case ParentCancel
    show ?thesis using N unfolding ParentCancel step_def by (auto intro!: inv_failed_frame[OF I])
  next
    case AddWorkers
    show ?thesis
    proof (cases "phase s \<noteq> Spawning")
      case True
      then show ?thesis using N I AddWorkers by (simp add: step_def addWorkers_def)
    next
      case False
      then have "workers s = []" using V by (simp add: inv_vended_def)
      then have "reads s = []" using I by (simp add: inv_failed_def)
      then show ?thesis using N False AddWorkers
        by (simp add: step_def addWorkers_def inv_failed_def)
    qed
  next
    case (Vend w)
    show ?thesis
    proof (cases "dispatcher s \<and> nextIdx s < length (builds cfg)
         \<and> w < length (workers s) \<and> workers s ! w = Receiving")
      case False
      have "vend cfg w s = s" unfolding vend_def by (rule if_not_P[OF False])
      then show ?thesis using N I Vend by (simp add: step_def)
    next
      case True
      have u: "inv_failed cfg (s\<lparr>workers := (workers s)[w := Working (nextIdx s)]\<rparr>)"
        by (rule inv_failed_update[OF I N]) (use True in auto)
      have "inv_failed cfg (s\<lparr>nextIdx := Suc (nextIdx s),
                   workers := (workers s)[w := Working (nextIdx s)]\<rparr>)"
        using u by (simp add: inv_failed_def)
      then show ?thesis using N True Vend by (simp add: step_def vend_def)
    qed
  next
    case DispatcherReturn
    show ?thesis using N I unfolding DispatcherReturn step_def dispatcherReturn_def
      by (auto simp: inv_failed_def wgDone_result)
  next
    case (SeeClosed w)
    show ?thesis
    proof (cases "\<not> dispatcher s \<and> w < length (workers s) \<and> workers s ! w = Receiving")
      case False
      have "seeClosed w s = s" unfolding seeClosed_def by (rule if_not_P[OF False])
      then show ?thesis using N I SeeClosed by (simp add: step_def)
    next
      case True
      have "inv_failed cfg (s\<lparr>workers := (workers s)[w := Reporting None]\<rparr>)"
        by (rule inv_failed_update[OF I N]) (use True in auto)
      then show ?thesis using N True SeeClosed by (simp add: step_def seeClosed_def)
    qed
  next
    case (Quit w)
    show ?thesis
    proof (cases "ctxDone s \<and> w < length (workers s)
         \<and> (case workers s ! w of Receiving \<Rightarrow> True | Reporting eo \<Rightarrow> True | _ \<Rightarrow> False)")
      case False
      have "quit w s = s" unfolding quit_def by (rule if_not_P[OF False])
      then show ?thesis using N I Quit by (simp add: step_def)
    next
      case True
      have "inv_failed cfg (s\<lparr>workers := (workers s)[w := Gone]\<rparr>)"
        by (rule inv_failed_update[OF I N]) simp
      then have "inv_failed cfg (wgDone (s\<lparr>workers := (workers s)[w := Gone]\<rparr>))"
        by (auto simp: inv_failed_def wgDone_result)
      then show ?thesis using N True Quit by (simp add: step_def quit_def)
    qed
  next
    case (Finish w)
    show ?thesis
    proof (cases "w < length (workers s)")
      case False
      then show ?thesis using N I Finish by (simp add: step_def finish_def)
    next
      case True
      show ?thesis
      proof (cases "workers s ! w")
        case (Working idx)
        show ?thesis
        proof (cases "idx < length (builds cfg)")
          case False
          then show ?thesis using N I Finish True Working by (simp add: step_def finish_def)
        next
          case lt: True
          show ?thesis
          proof (cases "readB cfg (builds cfg ! idx)")
            case (Inl err)
            have "some failedW ((workers s)[w := Reporting (Some err)])"
              by (rule some_update_new) (use True in auto)
            then have "inv_failed cfg (finish cfg w s)"
              using True Working lt Inl by (auto simp: finish_def Let_def inv_failed_def)
            then show ?thesis using N Finish by (simp add: step_def)
          next
            case (Inr col)
            have u: "inv_failed cfg (s\<lparr>workers := (workers s)[w := Receiving]\<rparr>)"
              by (rule inv_failed_update[OF I N]) (use Working in simp)
            have ws: "workers (finish cfg w s) = (workers s)[w := Receiving]"
              and rd: "reads (finish cfg w s) = reads s @ [builds cfg ! idx]"
              using True Working lt Inr by (simp_all add: finish_def Let_def split: if_splits)
            have "inv_failed cfg (finish cfg w s)"
              using u N Inr ws rd True by (auto simp: inv_failed_def)
            then show ?thesis using N Finish by (simp add: step_def)
          qed
        qed
      qed (use N I Finish True in \<open>simp_all add: step_def finish_def\<close>)
    qed
  next
    case (Report w)
    show ?thesis
    proof (cases "phase s = Draining \<and> 0 < remaining s \<and> w < length (workers s)")
      case False
      have "report_ec w s = s" unfolding report_ec_def by (rule if_not_P[OF False])
      then show ?thesis using N I Report by (simp add: step_def)
    next
      case True
      show ?thesis
      proof (cases "workers s ! w")
        case (Reporting eo)
        show ?thesis
        proof (cases eo)
          case None
          have "inv_failed cfg (s\<lparr>workers := (workers s)[w := Reported]\<rparr>)"
            by (rule inv_failed_update[OF I N]) (use Reporting None in auto)
          then have "inv_failed cfg (wgDone (s\<lparr>workers := (workers s)[w := Reported],
                               remaining := remaining s - 1\<rparr>))"
            by (auto simp: inv_failed_def wgDone_result)
          then show ?thesis using N True Report Reporting None
            by (simp add: step_def report_ec_def)
        next
          case (Some err)
          have "inv_failed cfg (report_ec w s)"
            using N I True Reporting Some
            by (auto simp: report_ec_def Let_def inv_failed_def wgDone_result)
          then show ?thesis using N Report by (simp add: step_def)
        qed
      qed (use N I Report True in \<open>simp_all add: step_def report_ec_def\<close>)
    qed
  next
    case DrainDone
    show ?thesis using N I unfolding DrainDone step_def drainDone_def
      by (auto simp: inv_failed_def)
  next
    case Cancel
    show ?thesis using N unfolding Cancel step_def cancel_def
      by (auto intro!: inv_failed_frame[OF I])
  next
    case Return
    show ?thesis using N unfolding Return step_def return_def
      by (auto intro!: inv_failed_frame[OF I])
  next
    case (Lock i)
    show ?thesis using N unfolding Lock step_def lock_def
      by (auto intro!: inv_failed_frame[OF I])
  next
    case Signal
    show ?thesis using N I unfolding Signal step_def signal_def
      by (auto simp: inv_failed_def wgDone_result split: option.splits)
  next
    case Unblock
    show ?thesis using N unfolding Unblock step_def unblock_def
      by (auto split: option.splits intro!: inv_failed_frame[OF I])
  qed
qed

lemma inv_stopcause_frame:
  "inv_stopcause cfg s \<Longrightarrow> dispatcher s' = dispatcher s \<Longrightarrow> nextIdx s' = nextIdx s \<Longrightarrow>
   parentDone s' = parentDone s \<Longrightarrow> discovered s' = discovered s \<Longrightarrow> inv_stopcause cfg s'"
  by (simp add: inv_stopcause_def)

lemma count_pos_some: "0 < count_list ws x \<Longrightarrow> P x \<Longrightarrow> some P ws"
proof -
  assume c: "0 < count_list ws x" and p: "P x"
  then have "x \<in> set ws" by (metis count_notin less_numeral_extra(3))
  then obtain w where "w < length ws" "ws ! w = x" by (auto simp: in_set_conv_nth)
  then show ?thesis using p by (auto simp: some_def)
qed

lemma inv_stopcause_step:
  assumes I: "inv_stopcause cfg s" and W: "inv_workers cfg s" and D: "inv_detect cfg s"
    and c: "0 < concurrency cfg"
  shows "inv_stopcause cfg (step cfg a s)"
proof (cases "result s = None")
  case False
  then show ?thesis using I by (simp add: step_def)
next
  case N: True
  show ?thesis
  proof (cases a)
    case ParentCancel
    show ?thesis using N I unfolding ParentCancel step_def by (auto simp: inv_stopcause_def)
  next
    case AddWorkers
    show ?thesis using N unfolding AddWorkers step_def addWorkers_def
      by (auto intro!: inv_stopcause_frame[OF I])
  next
    case (Vend w)
    show ?thesis using N I unfolding Vend step_def vend_def by (auto simp: inv_stopcause_def)
  next
    case DispatcherReturn
    show ?thesis
    proof (cases "dispatcher s \<and> (nextIdx s = length (builds cfg) \<or> ctxDone s)")
      case False
      have "dispatcherReturn cfg s = s" unfolding dispatcherReturn_def by (rule if_not_P[OF False])
      then show ?thesis using N I DispatcherReturn by (simp add: step_def)
    next
      case True
      have nc: "\<not> cancelled s"
      proof
        assume "cancelled s"
        then have "remaining s \<le> 0" using W by (auto simp: inv_workers_def)
        then have "0 < count_list (workers s) Reported" using W c by (auto simp: inv_workers_def)
        then have "some closedW (workers s)" by (rule count_pos_some) simp
        then show False using W True by (auto simp: inv_workers_def)
      qed
      have "inv_stopcause cfg (wgDone (s\<lparr>dispatcher := False\<rparr>))"
        using True nc by (auto simp: inv_stopcause_def ctxDone_def)
      then show ?thesis using N True DispatcherReturn by (simp add: step_def dispatcherReturn_def)
    qed
  next
    case (SeeClosed w)
    show ?thesis using N unfolding SeeClosed step_def seeClosed_def
      by (auto intro!: inv_stopcause_frame[OF I])
  next
    case (Quit w)
    show ?thesis using N unfolding Quit step_def quit_def
      by (auto intro!: inv_stopcause_frame[OF I])
  next
    case (Finish w)
    have "inv_stopcause cfg (finish cfg w s)"
      using I by (auto simp: inv_stopcause_def finish_def Let_def split: worker.splits sum.splits)
    then show ?thesis using N Finish by (simp add: step_def)
  next
    case (Report w)
    show ?thesis using N unfolding Report step_def report_ec_def
      by (auto simp: Let_def split: worker.splits option.splits intro!: inv_stopcause_frame[OF I])
  next
    case DrainDone
    show ?thesis using N unfolding DrainDone step_def drainDone_def
      by (auto intro!: inv_stopcause_frame[OF I])
  next
    case Cancel
    show ?thesis using N unfolding Cancel step_def cancel_def
      by (auto intro!: inv_stopcause_frame[OF I])
  next
    case Return
    show ?thesis using N unfolding Return step_def return_def
      by (auto intro!: inv_stopcause_frame[OF I])
  next
    case (Lock i)
    show ?thesis using N unfolding Lock step_def lock_def
      by (auto intro!: inv_stopcause_frame[OF I])
  next
    case Signal
    show ?thesis
    proof (cases "holder s")
      case None
      then show ?thesis using N I Signal by (simp add: step_def signal_def)
    next
      case (Some idx)
      then have "idx \<in> set (discovered s)" using D by (auto simp: inv_detect_def)
      then have "discovered s \<noteq> []" by auto
      then show ?thesis using N I Signal Some
        by (auto simp: step_def signal_def inv_stopcause_def)
    qed
  next
    case Unblock
    show ?thesis using N unfolding Unblock step_def unblock_def
      by (auto split: option.splits intro!: inv_stopcause_frame[OF I])
  qed
qed

lemma inv_errs_step:
  assumes I: "inv_errs cfg s"
  shows "inv_errs cfg (step cfg a s)"
proof (cases "result s = None")
  case False
  then show ?thesis using I by (simp add: step_def)
next
  case N: True
  show ?thesis
  proof (cases a)
    case (Finish w)
    have "inv_errs cfg (finish cfg w s)"
      using I N unfolding inv_errs_def finish_def
      by (auto simp: Let_def nth_list_update split: worker.splits sum.splits)
    then show ?thesis using N Finish by (simp add: step_def)
  next
    case (Report w)
    have "inv_errs cfg (report_ec w s)"
      using I N unfolding inv_errs_def report_ec_def
      by (auto simp: Let_def nth_list_update wgDone_result split: worker.splits option.splits)
    then show ?thesis using N Report by (simp add: step_def)
  next
    case (Quit w)
    have "inv_errs cfg (quit w s)"
      using I N unfolding inv_errs_def quit_def
      by (auto simp: nth_list_update wgDone_result)
    then show ?thesis using N Quit by (simp add: step_def)
  next
    case (Vend w)
    have "inv_errs cfg (vend cfg w s)"
      using I N unfolding inv_errs_def vend_def
      by (auto simp: nth_list_update)
    then show ?thesis using N Vend by (simp add: step_def)
  next
    case (SeeClosed w)
    have "inv_errs cfg (seeClosed w s)"
      using I N unfolding inv_errs_def seeClosed_def
      by (auto simp: nth_list_update)
    then show ?thesis using N SeeClosed by (simp add: step_def)
  next
    case Signal
    show ?thesis using I N unfolding Signal step_def signal_def inv_errs_def
      by (auto simp: wgDone_result split: option.splits)
  next
    case Unblock
    show ?thesis using I N unfolding Unblock step_def unblock_def inv_errs_def
      by (auto split: option.splits)
  next
    case DispatcherReturn
    show ?thesis using I N unfolding DispatcherReturn step_def dispatcherReturn_def inv_errs_def
      by (auto simp: wgDone_result)
  qed (use I N in \<open>auto simp: step_def act_defs inv_errs_def\<close>)
qed

lemma inv_all_start: "inv_all cfg (start cfg)"
  by (simp add: inv_all_def inv_bounds_def inv_detect_def inv_cols_def inv_final_def
        inv_vended_def inv_failed_def inv_errs_def inv_workers_def inv_stopcause_def
        start_def idle_def)

lemma inv_all_step:
  assumes I: "inv_all cfg s"
  shows "inv_all cfg (step cfg a s)"
proof -
  have B: "inv_bounds cfg s" and D: "inv_detect cfg s" and C: "inv_cols cfg s"
    and F: "inv_final s" and V: "inv_vended s" and X: "inv_failed cfg s" and E: "inv_errs cfg s"
    using I by (simp_all add: inv_all_def)
  have W: "0 < concurrency cfg \<longrightarrow>
             inv_workers cfg (step cfg a s) \<and> inv_stopcause cfg (step cfg a s)"
  proof
    assume c: "0 < concurrency cfg"
    then have w: "inv_workers cfg s" and t: "inv_stopcause cfg s"
      using I by (simp_all add: inv_all_def)
    show "inv_workers cfg (step cfg a s) \<and> inv_stopcause cfg (step cfg a s)"
      using inv_workers_step[OF w c] inv_stopcause_step[OF t w D c] by simp
  qed
  show ?thesis
    unfolding inv_all_def
    using inv_bounds_step[OF B] inv_detect_step[OF D] inv_cols_step[OF C B] inv_final_step[OF F]
      inv_vended_step[OF V] inv_failed_step[OF X V] inv_errs_step[OF E] W
    by simp
qed

lemma inv_all_run: "inv_all cfg (fold (step cfg) acts (start cfg))"
proof (induction acts rule: rev_induct)
  case Nil
  then show ?case by (simp add: inv_all_start)
next
  case (snoc a acts)
  then show ?case by (simp add: inv_all_step)
qed


lemma final_all_reported:
  assumes I: "inv_all cfg s" and r: "result s = Some (Inr cs)" and c: "0 < concurrency cfg"
  shows "\<forall>w<length (workers s). workers s ! w = Reported" and "workers s \<noteq> []"
proof -
  have W: "inv_workers cfg s" using I c by (simp add: inv_all_def)
  have ph: "phase s = Waiting" using I r by (auto simp: inv_all_def inv_final_def)
  then have len: "length (workers s) = nat (concurrency cfg)" and rem: "remaining s \<le> 0"
    and cnt: "remaining s = concurrency cfg - int (count_list (workers s) Reported)"
    using W by (auto simp: inv_workers_def)
  have "concurrency cfg \<le> int (count_list (workers s) Reported)" using rem cnt by simp
  then have "nat (concurrency cfg) \<le> count_list (workers s) Reported" by (simp add: nat_le_iff)
  then have le: "length (workers s) \<le> count_list (workers s) Reported" using len by simp
  show "\<forall>w<length (workers s). workers s ! w = Reported"
  proof (intro allI impI)
    fix w assume "w < length (workers s)"
    then show "workers s ! w = Reported" by (rule count_full[OF le])
  qed
  show "workers s \<noteq> []" using len c by auto
qed

lemma final_no_failure:
  assumes I: "inv_all cfg s" and r: "result s = Some (Inr cs)"
  shows "\<not> (\<exists>b\<in>set (reads s). \<exists>e. readB cfg b = Inl e)"
proof
  assume f: "\<exists>b\<in>set (reads s). \<exists>e. readB cfg b = Inl e"
  then have ne: "workers s \<noteq> []" using I by (auto simp: inv_all_def inv_failed_def)
  have "length (workers s) \<le> nat (concurrency cfg)"
    using I by (simp add: inv_all_def inv_bounds_def)
  then have c: "0 < concurrency cfg" using ne by (cases "workers s") auto
  have "some failedW (workers s)" using I f r by (auto simp: inv_all_def inv_failed_def)
  then obtain w where "w < length (workers s)" "failedW (workers s ! w)" by (auto simp: some_def)
  then show False using final_all_reported(1)[OF I r c] by auto
qed



lemma readBuild_error_wrapped:
  "readBuild client convertResult grp b = Inl e \<Longrightarrow> \<exists>m e'. e = Wrap m e'"
  by (auto simp: readBuild_def Let_def split: sum.splits)

lemma readColumns_run:
  "conc \<noteq> 0 \<Longrightarrow> 0 \<le> maxCols \<Longrightarrow>
   readColumns client convertResult grp bs stopTime maxCols perr conc acts
   = fold (step (runConfig client convertResult grp bs stopTime maxCols perr conc)) acts
       (start (runConfig client convertResult grp bs stopTime maxCols perr conc))"
  by (simp add: readColumns_def)


lemma sum_map_update:
  "i < length xs \<Longrightarrow>
   sum_list (map f (xs[i := v])) + f (xs ! i) = sum_list (map f xs) + (f v :: nat)"
proof (induction xs arbitrary: i)
  case Nil
  then show ?case by simp
next
  case (Cons a xs)
  show ?case
  proof (cases i)
    case 0
    then show ?thesis by simp
  next
    case (Suc j)
    then have "j < length xs" using Cons.prems by simp
    from Cons.IH[OF this] show ?thesis using Suc by simp
  qed
qed

lemma sum_replicate: "sum_list (map f (replicate n x)) = n * f x"
  by (induction n) simp_all

lemma inv_live_start: "inv_live cfg (start cfg)"
  by (simp add: inv_live_def debt_def start_def idle_def ctxDone_def)

lemma int_sum_update:
  "i < length xs \<Longrightarrow>
   int (sum_list (map f (xs[i := v]))) = int (sum_list (map f xs)) - int (f (xs ! i)) + int (f v)"
  using sum_map_update[of i xs f v] by linarith

lemma some_gone_update:
  "x \<noteq> Gone \<Longrightarrow> some (\<lambda>x. x = Gone) (ws[w := x]) \<Longrightarrow> some (\<lambda>x. x = Gone) ws"
  by (cases "w < length ws") (auto simp: some_def nth_list_update split: if_splits)

lemma count_reported_update:
  "w < length ws \<Longrightarrow> ws ! w \<noteq> Reported \<Longrightarrow>
   count_list (ws[w := x]) Reported = count_list ws Reported + (if x = Reported then 1 else 0)"
  by (simp add: count_update_same count_update_other)

lemma debt_phase: "phase s' = phase s \<Longrightarrow> debt cfg s' = debt cfg s"
  by (simp add: debt_def)

lemma inv_live_frame:
  assumes I: "inv_live cfg s"
    and "phase s' = phase s" "wg s' = wg s" "dispatcher s' = dispatcher s"
    "remaining s' = remaining s" "cancelled s' = cancelled s" "parentDone s \<longrightarrow> parentDone s'"
    "result s' = None \<longrightarrow> result s = None" "workers s' = workers s"
  shows "inv_live cfg s'"
proof -
  have d: "debt cfg s' = debt cfg s" using assms(2) by (rule debt_phase)
  show ?thesis using assms unfolding inv_live_def d by (auto simp: ctxDone_def)
qed

lemma inv_live_swap:
  assumes I: "inv_live cfg s" and w: "w < length (workers s)"
    and o: "activeW (workers s ! w) = 1" and x: "activeW x = 1"
    and "phase s' = phase s" "wg s' = wg s" "dispatcher s' = dispatcher s"
    "remaining s' = remaining s" "cancelled s' = cancelled s" "parentDone s' = parentDone s"
    "result s' = result s" "workers s' = (workers s)[w := x]"
  shows "inv_live cfg s'"
proof -
  have d: "debt cfg s' = debt cfg s" using assms(5) by (rule debt_phase)
  have xr: "x \<noteq> Reported" "x \<noteq> Gone" using x by auto
  have xo: "workers s ! w \<noteq> Reported" using o by auto
  have sm: "int (sum_list (map activeW ((workers s)[w := x])))
            = int (sum_list (map activeW (workers s)))"
    using int_sum_update[OF w, of activeW x] o x by simp
  have cn: "count_list ((workers s)[w := x]) Reported = count_list (workers s) Reported"
    using count_reported_update[OF w xo, of x] xr by simp
  have g: "some (\<lambda>x. x = Gone) ((workers s)[w := x]) \<longrightarrow> some (\<lambda>x. x = Gone) (workers s)"
    using some_gone_update[OF xr(2)] by blast
  have ne: "(workers s)[w := x] \<noteq> []" using w by auto
  have ne': "workers s \<noteq> []" using w by auto
  show ?thesis using assms(1,5-) sm cn g ne ne' unfolding inv_live_def d
    by (auto simp: ctxDone_def)
qed

lemma inv_live_leave:
  assumes I: "inv_live cfg s" and w: "w < length (workers s)"
    and o: "activeW (workers s ! w) = 1" and x: "x = Gone \<or> x = Reported"
    and g: "x = Gone \<longrightarrow> ctxDone s"
    and r: "x = Reported \<longrightarrow> rem' = remaining s - 1 \<and> phase s = Draining"
    and k: "x = Gone \<longrightarrow> rem' = remaining s"
  shows "inv_live cfg (wgDone (s\<lparr>workers := (workers s)[w := x], remaining := rem'\<rparr>))"
proof -
  let ?s' = "wgDone (s\<lparr>workers := (workers s)[w := x], remaining := rem'\<rparr>)"
  have d: "debt cfg ?s' = debt cfg s" by (rule debt_phase) simp
  have xo: "workers s ! w \<noteq> Reported" using o by auto
  have ax: "activeW x = 0" using x by auto
  have sm: "int (sum_list (map activeW ((workers s)[w := x])))
            = int (sum_list (map activeW (workers s))) - 1"
    using int_sum_update[OF w, of activeW x] o ax by simp
  have cn: "count_list ((workers s)[w := x]) Reported
            = count_list (workers s) Reported + (if x = Reported then 1 else 0)"
    using count_reported_update[OF w xo, of x] by simp
  have ne: "(workers s)[w := x] \<noteq> []" using w by auto
  have ne': "workers s \<noteq> []" using w by auto
  have ph: "phase s \<noteq> Spawning" using I ne' by (auto simp: inv_live_def)
  have gg: "x = Reported \<longrightarrow> some (\<lambda>x. x = Gone) ((workers s)[w := x])
              \<longrightarrow> some (\<lambda>x. x = Gone) (workers s)"
    using some_gone_update[of x "workers s" w] by auto
  show ?thesis using I sm cn ne ne' ph x g r k gg unfolding inv_live_def d
    by (auto simp: ctxDone_def wgDone_result)
qed

lemma inv_live_addWorkers:
  assumes I: "inv_live cfg s" and N: "result s = None"
  shows "inv_live cfg (addWorkers cfg s)"
proof (cases "phase s = Spawning")
  case False
  then show ?thesis using I by (simp add: addWorkers_def)
next
  case True
  have g: "\<not> some (\<lambda>x. x = Gone) (replicate (nat (concurrency cfg)) Receiving)"
    by (rule some_replicate) simp
  show ?thesis using I N True g unfolding inv_live_def addWorkers_def debt_def
    by (auto simp: ctxDone_def sum_replicate sum_list_replicate)
qed

lemma inv_live_vend:
  assumes I: "inv_live cfg s" and N: "result s = None"
  shows "inv_live cfg (vend cfg w s)"
proof (cases "dispatcher s \<and> nextIdx s < length (builds cfg)
         \<and> w < length (workers s) \<and> workers s ! w = Receiving")
  case False
  have "vend cfg w s = s" unfolding vend_def by (rule if_not_P[OF False])
  then show ?thesis using I by simp
next
  case True
  then have q: "vend cfg w s
      = s\<lparr>nextIdx := Suc (nextIdx s), workers := (workers s)[w := Working (nextIdx s)]\<rparr>"
    by (simp add: vend_def)
  show ?thesis unfolding q
    by (rule inv_live_swap[OF I, of w "Working (nextIdx s)"]) (use True in simp_all)
qed

lemma inv_live_seeClosed:
  assumes I: "inv_live cfg s" and N: "result s = None"
  shows "inv_live cfg (seeClosed w s)"
proof (cases "\<not> dispatcher s \<and> w < length (workers s) \<and> workers s ! w = Receiving")
  case False
  have "seeClosed w s = s" unfolding seeClosed_def by (rule if_not_P[OF False])
  then show ?thesis using I by simp
next
  case True
  then have q: "seeClosed w s = s\<lparr>workers := (workers s)[w := Reporting None]\<rparr>"
    by (simp add: seeClosed_def)
  show ?thesis unfolding q
    by (rule inv_live_swap[OF I, of w "Reporting None"]) (use True in simp_all)
qed

lemma inv_live_quit:
  assumes I: "inv_live cfg s" and N: "result s = None"
  shows "inv_live cfg (quit w s)"
proof (cases "ctxDone s \<and> w < length (workers s)
         \<and> (case workers s ! w of Receiving \<Rightarrow> True | Reporting eo \<Rightarrow> True | _ \<Rightarrow> False)")
  case False
  have "quit w s = s" unfolding quit_def by (rule if_not_P[OF False])
  then show ?thesis using I by simp
next
  case True
  then have q: "quit w s = wgDone (s\<lparr>workers := (workers s)[w := Gone]\<rparr>)"
    by (simp add: quit_def)
  have a: "activeW (workers s ! w) = 1" using True by (auto split: worker.splits)
  have "inv_live cfg (wgDone (s\<lparr>workers := (workers s)[w := Gone], remaining := remaining s\<rparr>))"
    by (rule inv_live_leave[OF I _ a]) (use True in simp_all)
  then show ?thesis unfolding q by simp
qed

lemma inv_live_finish:
  assumes I: "inv_live cfg s" and N: "result s = None"
  shows "inv_live cfg (finish cfg w s)"
proof (cases "w < length (workers s) \<and> (\<exists>idx. workers s ! w = Working idx \<and> idx < length (builds cfg))")
  case False
  then have "finish cfg w s = s" by (auto simp: finish_def split: worker.splits)
  then show ?thesis using I by simp
next
  case True
  then obtain idx where w: "w < length (workers s)" and k: "workers s ! w = Working idx"
    and i: "idx < length (builds cfg)" by blast
  show ?thesis
  proof (cases "readB cfg (builds cfg ! idx)")
    case (Inl err)
    show ?thesis
      by (rule inv_live_swap[OF I w, of "Reporting (Some err)"])
         (use w k i Inl in \<open>simp_all add: finish_def Let_def\<close>)
  next
    case (Inr col)
    show ?thesis
      by (rule inv_live_swap[OF I w, of Receiving])
         (use w k i Inr in \<open>simp_all add: finish_def Let_def\<close>)
  qed
qed

lemma inv_live_report_ec:
  assumes I: "inv_live cfg s" and N: "result s = None"
  shows "inv_live cfg (report_ec w s)"
proof (cases "phase s = Draining \<and> 0 < remaining s \<and> w < length (workers s)
              \<and> (\<exists>eo. workers s ! w = Reporting eo)")
  case False
  then have "report_ec w s = s" by (auto simp: report_ec_def split: worker.splits)
  then show ?thesis using I by simp
next
  case True
  then obtain eo where w: "w < length (workers s)" and k: "workers s ! w = Reporting eo"
    and p: "phase s = Draining" "0 < remaining s" by blast
  have a: "activeW (workers s ! w) = 1" using k by simp
  show ?thesis
  proof (cases eo)
    case None
    have "inv_live cfg (wgDone (s\<lparr>workers := (workers s)[w := Reported],
                                  remaining := remaining s - 1\<rparr>))"
      by (rule inv_live_leave[OF I w a]) (use p in simp_all)
    then show ?thesis using w k p None by (simp add: report_ec_def)
  next
    case (Some err)
    let ?s1 = "wgDone (s\<lparr>workers := (workers s)[w := Gone]\<rparr>)"
    have wgs: "wg ?s1 = (if dispatcher s then 1 else 0)
            + int (sum_list (map activeW ((workers s)[w := Gone]))) + debt cfg s"
      using I int_sum_update[OF w, of activeW Gone] a by (simp add: inv_live_def)
    have cn: "count_list ((workers s)[w := Gone]) Reported = count_list (workers s) Reported"
      using count_reported_update[OF w, of Gone] k by simp
    have d: "\<And>r. debt cfg (?s1\<lparr>result := r\<rparr>) = debt cfg s" "debt cfg ?s1 = debt cfg s"
      by (rule debt_phase, simp)+
    have q: "report_ec w s = (if result ?s1 = None then ?s1\<lparr>result := Some (Inl err)\<rparr> else ?s1)"
      using w k p Some by (simp add: report_ec_def Let_def)
    show ?thesis unfolding q inv_live_def using I wgs cn p w
      by (auto simp: d inv_live_def)
  qed
qed

lemma inv_live_drainDone:
  assumes I: "inv_live cfg s" and N: "result s = None"
  shows "inv_live cfg (drainDone cfg s)"
proof (cases "phase s = Draining \<and> 0 < remaining s \<and> ctxDone s")
  case False
  have "drainDone cfg s = s" unfolding drainDone_def by (rule if_not_P[OF False])
  then show ?thesis using I by simp
next
  case True
  show ?thesis unfolding drainDone_def
    by (rule inv_live_frame[OF I]) (use True in simp_all)
qed

lemma inv_live_cancel:
  assumes I: "inv_live cfg s" and N: "result s = None"
  shows "inv_live cfg (cancel s)"
  using I N unfolding inv_live_def cancel_def debt_def by (auto simp: ctxDone_def)

lemma inv_live_return:
  assumes I: "inv_live cfg s" and N: "result s = None"
  shows "inv_live cfg (return s)"
proof (cases "phase s = Waiting \<and> wg s = 0 \<and> waiting s = [] \<and> holder s = None")
  case False
  have "return s = s" unfolding return_def by (rule if_not_P[OF False])
  then show ?thesis using I by simp
next
  case True
  show ?thesis unfolding return_def
    by (rule inv_live_frame[OF I]) (use True in simp_all)
qed

lemma inv_live_lock:
  assumes I: "inv_live cfg s" and N: "result s = None"
  shows "inv_live cfg (lock cfg i s)"
  by (rule inv_live_frame[OF I]) (simp_all add: lock_def)

lemma inv_live_unblock:
  assumes I: "inv_live cfg s" and N: "result s = None"
  shows "inv_live cfg (unblock s)"
  by (rule inv_live_frame[OF I]) (simp_all add: unblock_def split: option.splits)

lemma inv_live_dispatcher_leaves:
  assumes I: "inv_live cfg s" and d: "dispatcher s"
    and f: "phase s' = phase s" "wg s' = wg s" "remaining s' = remaining s"
      "cancelled s' = cancelled s" "parentDone s' = parentDone s" "result s' = result s"
      "workers s' = workers s" "\<not> dispatcher s'"
  shows "inv_live cfg (wgDone s')"
proof -
  have e: "debt cfg (wgDone s') = debt cfg s" by (rule debt_phase) (simp add: f)
  show ?thesis using I d f unfolding inv_live_def e
    by (auto simp: ctxDone_def wgDone_result)
qed

lemma inv_live_dispatcherReturn:
  assumes I: "inv_live cfg s" and N: "result s = None"
  shows "inv_live cfg (dispatcherReturn cfg s)"
proof (cases "dispatcher s \<and> (nextIdx s = length (builds cfg) \<or> ctxDone s)")
  case False
  have "dispatcherReturn cfg s = s" unfolding dispatcherReturn_def by (rule if_not_P[OF False])
  then show ?thesis using I by simp
next
  case True
  have "inv_live cfg (wgDone (s\<lparr>dispatcher := False\<rparr>))"
    by (rule inv_live_dispatcher_leaves[OF I]) (use True in simp_all)
  then show ?thesis using True by (simp add: dispatcherReturn_def)
qed

lemma inv_live_signal:
  assumes I: "inv_live cfg s" and N: "result s = None"
  shows "inv_live cfg (signal cfg s)"
proof (cases "holder s")
  case None
  then show ?thesis using I by (simp add: signal_def)
next
  case (Some idx)
  show ?thesis
  proof (cases "dispatcher s \<and> nextIdx s < length (builds cfg)")
    case False
    then have "signal cfg s = s" using Some by (auto simp: signal_def)
    then show ?thesis using I by simp
  next
    case True
    have "inv_live cfg (wgDone (s\<lparr>dispatcher := False, holder := None,
                                  maxIdx := shrink idx (maxIdx s)\<rparr>))"
      by (rule inv_live_dispatcher_leaves[OF I]) (use True in simp_all)
    then show ?thesis using True Some by (simp add: signal_def)
  qed
qed

lemma inv_live_step:
  assumes I: "inv_live cfg s"
  shows "inv_live cfg (step cfg a s)"
proof (cases "result s = None")
  case False
  then show ?thesis using I by (simp add: step_def)
next
  case N: True
  have p: "inv_live cfg (s\<lparr>parentDone := True\<rparr>)"
    by (rule inv_live_frame[OF I]) simp_all
  show ?thesis using N p
    inv_live_addWorkers[OF I N] inv_live_vend[OF I N] inv_live_dispatcherReturn[OF I N]
    inv_live_seeClosed[OF I N] inv_live_quit[OF I N] inv_live_finish[OF I N]
    inv_live_report_ec[OF I N] inv_live_drainDone[OF I N] inv_live_cancel[OF I N]
    inv_live_return[OF I N] inv_live_lock[OF I N] inv_live_signal[OF I N]
    inv_live_unblock[OF I N]
    by (cases a) (simp_all add: step_def)
qed

lemma inv_live_run: "inv_live cfg (fold (step cfg) acts (start cfg))"
proof (induction acts rule: rev_induct)
  case Nil
  then show ?case by (simp add: inv_live_start)
next
  case (snoc a acts)
  then show ?case by (simp add: inv_live_step)
qed

lemma phi_wgDone [simp]: "phi cfg (wgDone s) = phi cfg s"
  by (simp add: phi_def)

lemma phi_worker:
  assumes w: "w < length (workers s)"
    and f: "phase s' = phase s" "parentDone s' = parentDone s" "workers s' = (workers s)[w := x]"
    and lt: "(if dispatcher s' then 1 + 6 * (length (builds cfg) - nextIdx s') else 0)
             + 2 * length (waiting s') + (case holder s' of None \<Rightarrow> 0 | Some idx \<Rightarrow> 1) + phiW x
             < (if dispatcher s then 1 + 6 * (length (builds cfg) - nextIdx s) else 0)
             + 2 * length (waiting s) + (case holder s of None \<Rightarrow> 0 | Some idx \<Rightarrow> 1)
             + phiW (workers s ! w)"
  shows "phi cfg s' < phi cfg s"
proof -
  have e: "sum_list (map phiW ((workers s)[w := x])) + phiW (workers s ! w)
           = sum_list (map phiW (workers s)) + phiW x"
    by (rule sum_map_update[OF w])
  show ?thesis unfolding phi_def f using e lt by linarith
qed

lemma addWorkers_dec:
  assumes "phase s = Spawning" and "workers s = []"
  shows "result (addWorkers cfg s) \<noteq> None \<or> phi cfg (addWorkers cfg s) < phi cfg s"
  using assms by (simp add: addWorkers_def phi_def sum_replicate sum_list_replicate)

lemma vend_dec:
  assumes "dispatcher s \<and> nextIdx s < length (builds cfg)
         \<and> w < length (workers s) \<and> workers s ! w = Receiving"
  shows "phi cfg (vend cfg w s) < phi cfg s"
proof -
  have q: "vend cfg w s
      = s\<lparr>nextIdx := Suc (nextIdx s), workers := (workers s)[w := Working (nextIdx s)]\<rparr>"
    using assms by (simp add: vend_def)
  have n: "nextIdx s < length (builds cfg)" and d: "dispatcher s" and w: "w < length (workers s)"
    and k: "workers s ! w = Receiving" using assms by simp_all
  show ?thesis unfolding q
    by (rule phi_worker[OF w, of _ "Working (nextIdx s)"]) (use n d k in simp_all)
qed

lemma dispatcherReturn_dec:
  assumes "dispatcher s \<and> (nextIdx s = length (builds cfg) \<or> ctxDone s)"
  shows "phi cfg (dispatcherReturn cfg s) < phi cfg s"
  using assms by (simp add: dispatcherReturn_def phi_def)

lemma seeClosed_dec:
  assumes "\<not> dispatcher s \<and> w < length (workers s) \<and> workers s ! w = Receiving"
  shows "phi cfg (seeClosed w s) < phi cfg s"
proof -
  have q: "seeClosed w s = s\<lparr>workers := (workers s)[w := Reporting None]\<rparr>"
    using assms by (simp add: seeClosed_def)
  show ?thesis unfolding q
    by (rule phi_worker[of w s _ "Reporting None"]) (use assms in simp_all)
qed

lemma quit_dec:
  assumes "ctxDone s \<and> w < length (workers s)
         \<and> (case workers s ! w of Receiving \<Rightarrow> True | Reporting eo \<Rightarrow> True | _ \<Rightarrow> False)"
  shows "phi cfg (quit w s) < phi cfg s"
proof -
  have q: "quit w s = wgDone (s\<lparr>workers := (workers s)[w := Gone]\<rparr>)"
    using assms by (simp add: quit_def)
  have "phi cfg (s\<lparr>workers := (workers s)[w := Gone]\<rparr>) < phi cfg s"
    by (rule phi_worker[of w s _ Gone]) (use assms in \<open>auto split: worker.splits\<close>)
  then show ?thesis unfolding q by simp
qed

lemma finish_dec:
  assumes w: "w < length (workers s)" and k: "workers s ! w = Working idx"
    and i: "idx < length (builds cfg)"
  shows "phi cfg (finish cfg w s) < phi cfg s"
proof (cases "readB cfg (builds cfg ! idx)")
  case (Inl err)
  show ?thesis
    by (rule phi_worker[OF w, of _ "Reporting (Some err)"])
       (use w k i Inl in \<open>simp_all add: finish_def Let_def\<close>)
next
  case (Inr col)
  show ?thesis
    by (rule phi_worker[OF w, of _ Receiving])
       (use w k i Inr in \<open>simp_all add: finish_def Let_def\<close>)
qed

lemma report_ec_dec:
  assumes p: "phase s = Draining" "0 < remaining s" and w: "w < length (workers s)"
    and k: "workers s ! w = Reporting eo"
  shows "result (report_ec w s) \<noteq> None \<or> phi cfg (report_ec w s) < phi cfg s"
proof (cases eo)
  case None
  have "phi cfg (s\<lparr>workers := (workers s)[w := Reported], remaining := remaining s - 1\<rparr>)
        < phi cfg s"
    by (rule phi_worker[OF w, of _ Reported]) (use k in simp_all)
  then show ?thesis using p w k None by (simp add: report_ec_def)
next
  case (Some err)
  then show ?thesis using p w k by (simp add: report_ec_def Let_def)
qed

lemma drainDone_dec:
  assumes "phase s = Draining \<and> 0 < remaining s \<and> ctxDone s"
  shows "result (drainDone cfg s) \<noteq> None"
  using assms by (simp add: drainDone_def)

lemma cancel_dec:
  assumes "phase s = Draining \<and> remaining s \<le> 0"
  shows "phi cfg (cancel s) < phi cfg s"
  using assms by (simp add: cancel_def phi_def)

lemma return_dec:
  assumes "phase s = Waiting \<and> wg s = 0 \<and> waiting s = [] \<and> holder s = None"
  shows "result (return s) \<noteq> None"
  using assms by (simp add: return_def)

lemma lock_dec:
  assumes "holder s = None \<and> idx \<in> set (waiting s)"
  shows "phi cfg (lock cfg idx s) < phi cfg s"
proof -
  have "0 < length (waiting s)" using assms by (auto simp: length_pos_if_in_set)
  then have l: "length (remove1 idx (waiting s)) + 1 = length (waiting s)"
    using assms by (simp add: length_remove1)
  have h: "holder s = None" and m: "idx \<in> set (waiting s)" using assms by simp_all
  show ?thesis
  proof (cases "maxIdx s = length (builds cfg)")
    case True
    then have "lock cfg idx s = s\<lparr>waiting := remove1 idx (waiting s), holder := Some idx\<rparr>"
      using h m by (simp add: lock_def)
    then show ?thesis using l h by (simp add: phi_def)
  next
    case False
    then have "lock cfg idx s
        = s\<lparr>waiting := remove1 idx (waiting s), maxIdx := shrink idx (maxIdx s)\<rparr>"
      using h m by (simp add: lock_def)
    then show ?thesis using l h by (simp add: phi_def)
  qed
qed


lemma unblock_dec:
  assumes "holder s = Some idx" "ctxDone s"
  shows "phi cfg (unblock s) < phi cfg s"
  using assms by (simp add: unblock_def phi_def)


lemma count_all: "\<forall>w<length ws. ws ! w = x \<Longrightarrow> count_list ws x = length ws"
proof (induction ws)
  case Nil
  then show ?case by simp
next
  case (Cons a ws)
  have "a = x" using Cons.prems by (auto dest: spec[of _ 0])
  moreover have "\<forall>w<length ws. ws ! w = x"
  proof (intro allI impI)
    fix w assume "w < length ws"
    then show "ws ! w = x" using Cons.prems by (auto dest: spec[of _ "Suc w"])
  qed
  ultimately show ?case using Cons.IH by simp
qed

lemma sum_active_reported:
  "\<forall>w<length ws. ws ! w = Reported \<Longrightarrow> sum_list (map activeW ws) = 0"
  by (auto simp: in_set_conv_nth)

lemma progress_step:
  assumes L: "inv_live cfg s" and B: "inv_bounds cfg s" and N: "result s = None"
  shows "\<exists>a. a \<noteq> ParentCancel
             \<and> (result (step cfg a s) \<noteq> None \<or> phi cfg (step cfg a s) < phi cfg s)"
proof -
  have st: "\<And>a. step cfg a s = (case a of
              ParentCancel \<Rightarrow> s\<lparr>parentDone := True\<rparr>
            | AddWorkers \<Rightarrow> addWorkers cfg s
            | Vend w \<Rightarrow> vend cfg w s
            | DispatcherReturn \<Rightarrow> dispatcherReturn cfg s
            | SeeClosed w \<Rightarrow> seeClosed w s
            | Quit w \<Rightarrow> quit w s
            | Finish w \<Rightarrow> finish cfg w s
            | Report w \<Rightarrow> report_ec w s
            | DrainDone \<Rightarrow> drainDone cfg s
            | Cancel \<Rightarrow> cancel s
            | Return \<Rightarrow> return s
            | Lock idx \<Rightarrow> lock cfg idx s
            | Signal \<Rightarrow> signal cfg s
            | Unblock \<Rightarrow> unblock s)"
    using N by (simp add: step_def)
  have len: "phase s \<noteq> Spawning \<Longrightarrow> length (workers s) = nat (concurrency cfg)"
    and rem: "remaining s = concurrency cfg - int (count_list (workers s) Reported)"
    using L by (simp_all add: inv_live_def)
  show ?thesis
  proof (cases "phase s")
    case Spawning
    then have "workers s = []" using L by (simp add: inv_live_def)
    from addWorkers_dec[OF Spawning this, of cfg]
    have "result (step cfg AddWorkers s) \<noteq> None \<or> phi cfg (step cfg AddWorkers s) < phi cfg s"
      by (simp add: st)
    then show ?thesis by blast
  next
    case Draining
    show ?thesis
    proof (cases "remaining s \<le> 0")
      case True
      from cancel_dec[of s cfg] Draining True
      have "phi cfg (step cfg Cancel s) < phi cfg s" by (simp add: st)
      then show ?thesis by blast
    next
      case pos: False
      show ?thesis
      proof (cases "ctxDone s")
        case True
        from drainDone_dec[of s cfg] Draining pos True
        have "result (step cfg DrainDone s) \<noteq> None" by (simp add: st)
        then show ?thesis by blast
      next
        case nd: False
        have "\<not> (\<forall>w<length (workers s). workers s ! w = Reported)"
        proof
          assume "\<forall>w<length (workers s). workers s ! w = Reported"
          then have "count_list (workers s) Reported = length (workers s)" by (rule count_all)
          then have "int (count_list (workers s) Reported) = int (nat (concurrency cfg))"
            using len Draining by simp
          then show False using rem pos by linarith
        qed
        then obtain w where w: "w < length (workers s)" and nr: "workers s ! w \<noteq> Reported"
          by blast
        have ng: "workers s ! w \<noteq> Gone"
        proof
          assume "workers s ! w = Gone"
          then have "some (\<lambda>x. x = Gone) (workers s)" using w by (auto simp: some_def)
          then show False using L N nd by (simp add: inv_live_def)
        qed
        show ?thesis
        proof (cases "workers s ! w")
          case Receiving
          show ?thesis
          proof (cases "dispatcher s")
            case False
            from seeClosed_dec[of s w cfg] False w Receiving
            have "phi cfg (step cfg (SeeClosed w) s) < phi cfg s" by (simp add: st)
            then show ?thesis by blast
          next
            case True
            show ?thesis
            proof (cases "nextIdx s < length (builds cfg)")
              case True
              from vend_dec[of s cfg w] \<open>dispatcher s\<close> True w Receiving
              have "phi cfg (step cfg (Vend w) s) < phi cfg s" by (simp add: st)
              then show ?thesis by blast
            next
              case False
              then have "nextIdx s = length (builds cfg)" using B by (simp add: inv_bounds_def)
              from dispatcherReturn_dec[of s cfg] \<open>dispatcher s\<close> this
              have "phi cfg (step cfg DispatcherReturn s) < phi cfg s" by (simp add: st)
              then show ?thesis by blast
            qed
          qed
        next
          case (Working idx)
          then have "idx < length (builds cfg)" using B w by (auto simp: inv_bounds_def)
          from finish_dec[OF w Working this]
          have "phi cfg (step cfg (Finish w) s) < phi cfg s" by (simp add: st)
          then show ?thesis by blast
        next
          case (Reporting eo)
          from report_ec_dec[OF Draining _ w Reporting, of cfg] pos
          have "result (step cfg (Report w) s) \<noteq> None \<or> phi cfg (step cfg (Report w) s) < phi cfg s"
            by (simp add: st)
          then show ?thesis by blast
        next
          case Reported
          then show ?thesis using nr by simp
        next
          case Gone
          then show ?thesis using ng by simp
        qed
      qed
    qed
  next
    case Waiting
    then have rl: "remaining s \<le> 0" and cd: "ctxDone s"
      using L by (simp_all add: inv_live_def ctxDone_def)
    show ?thesis
    proof (cases "dispatcher s")
      case True
      from dispatcherReturn_dec[of s cfg] True cd
      have "phi cfg (step cfg DispatcherReturn s) < phi cfg s" by (simp add: st)
      then show ?thesis by blast
    next
      case nd: False
      show ?thesis
      proof (cases "holder s")
        case (Some idx)
        from unblock_dec[OF Some cd, of cfg]
        have "phi cfg (step cfg Unblock s) < phi cfg s" by (simp add: st)
        then show ?thesis by blast
      next
        case None
        show ?thesis
        proof (cases "waiting s")
          case (Cons idx rest)
          then have "idx \<in> set (waiting s)" by simp
          from lock_dec[of s idx cfg] None this
          have "phi cfg (step cfg (Lock idx) s) < phi cfg s" by (simp add: st)
          then show ?thesis by blast
        next
          case Nil
          have wgs: "wg s = int (sum_list (map activeW (workers s))) + debt cfg s"
            and z: "0 \<le> wg s"
            using L N nd by (simp_all add: inv_live_def)
          have "wg s = 0"
          proof (cases "0 \<le> concurrency cfg")
            case True
            have "int (length (workers s)) = concurrency cfg" using len Waiting True by simp
            then have le: "length (workers s) \<le> count_list (workers s) Reported"
              using rem rl by linarith
            have "\<forall>w<length (workers s). workers s ! w = Reported"
            proof (intro allI impI)
              fix w assume "w < length (workers s)"
              then show "workers s ! w = Reported" by (rule count_full[OF le])
            qed
            then have "sum_list (map activeW (workers s)) = 0" by (rule sum_active_reported)
            then show ?thesis using wgs True by (simp add: debt_def)
          next
            case False
            then have "workers s = []" using len Waiting by simp
            then have "wg s = concurrency cfg" using wgs False Waiting by (simp add: debt_def)
            then show ?thesis using z False by simp
          qed
          from return_dec[of s] Waiting this Nil None
          have "result (step cfg Return s) \<noteq> None" by (simp add: st)
          then show ?thesis by blast
        qed
      qed
    qed
  qed
qed

lemma run_completes:
  assumes I: "inv_all cfg s" and L: "inv_live cfg s"
  shows "\<exists>more. ParentCancel \<notin> set more \<and> result (fold (step cfg) more s) \<noteq> None"
  using I L
proof (induction "phi cfg s" arbitrary: s rule: less_induct)
  case less
  show ?case
  proof (cases "result s = None")
    case False
    then have "ParentCancel \<notin> set [] \<and> result (fold (step cfg) [] s) \<noteq> None" by simp
    then show ?thesis by blast
  next
    case True
    have B: "inv_bounds cfg s" using less.prems(1) by (simp add: inv_all_def)
    from progress_step[OF less.prems(2) B True] obtain a where a: "a \<noteq> ParentCancel"
      and d: "result (step cfg a s) \<noteq> None \<or> phi cfg (step cfg a s) < phi cfg s" by blast
    show ?thesis
    proof (cases "result (step cfg a s) \<noteq> None")
      case True
      then have "ParentCancel \<notin> set [a] \<and> result (fold (step cfg) [a] s) \<noteq> None"
        using a by simp
      then show ?thesis by blast
    next
      case False
      then have lt: "phi cfg (step cfg a s) < phi cfg s" using d by simp
      from less.hyps[OF lt inv_all_step[OF less.prems(1)] inv_live_step[OF less.prems(2)]]
      obtain more where m: "ParentCancel \<notin> set more"
        "result (fold (step cfg) more (step cfg a s)) \<noteq> None" by blast
      then have "ParentCancel \<notin> set (a # more) \<and> result (fold (step cfg) (a # more) s) \<noteq> None"
        using a by simp
      then show ?thesis by blast
    qed
  qed
qed





lemma active_le_sum: "w < length ws \<Longrightarrow> activeW (ws ! w) \<le> sum_list (map activeW ws)"
  using sum_map_update[of w ws activeW Gone] by simp

lemma wgDone_quiet:
  assumes L: "inv_live cfg s" and N: "result s = None" and c: "0 \<le> concurrency cfg"
    and a: "dispatcher s \<or> (\<exists>w<length (workers s). activeW (workers s ! w) = 1)"
    and f: "wg s' = wg s" "result s' = None"
  shows "result (wgDone s') = None"
proof -
  have wgs: "wg s = (if dispatcher s then 1 else 0) + int (sum_list (map activeW (workers s)))"
    using L c by (simp add: inv_live_def debt_def)
  have "1 \<le> wg s"
  proof (cases "dispatcher s")
    case True
    then show ?thesis using wgs by simp
  next
    case False
    then obtain w where "w < length (workers s)" "activeW (workers s ! w) = 1" using a by blast
    then have "1 \<le> sum_list (map activeW (workers s))" using active_le_sum[of w "workers s"] by simp
    then show ?thesis using wgs by simp
  qed
  then show ?thesis using f by (simp add: wgDone_result)
qed

lemma inv_cause_frame:
  assumes "inv_cause cfg s" "workers s' = workers s" "result s' = result s"
    "parentDone s \<longrightarrow> parentDone s'"
  shows "inv_cause cfg s'"
  using assms unfolding inv_cause_def by auto

lemma inv_cause_swap:
  assumes I: "inv_cause cfg s" and f: "workers s' = (workers s)[w := x]" "result s' = result s"
    "parentDone s' = parentDone s"
    and x: "\<forall>e. x = Reporting (Some e) \<longrightarrow>
              (\<exists>i<length (builds cfg). readB cfg (builds cfg ! i) = Inl e)"
  shows "inv_cause cfg s'"
proof (cases "w < length (workers s)")
  case True
  then show ?thesis using I f x unfolding inv_cause_def by (auto simp: nth_list_update)
next
  case False
  then show ?thesis using I f unfolding inv_cause_def by auto
qed

lemma inv_cause_step:
  assumes I: "inv_cause cfg s" and L: "inv_live cfg s" and B: "inv_bounds cfg s"
    and c: "0 \<le> concurrency cfg"
  shows "inv_cause cfg (step cfg a s)"
proof (cases "result s = None")
  case False
  then show ?thesis using I by (simp add: step_def)
next
  case N: True
  show ?thesis
  proof (cases a)
    case ParentCancel
    have "inv_cause cfg (s\<lparr>parentDone := True\<rparr>)" by (rule inv_cause_frame[OF I]) simp_all
    then show ?thesis using N ParentCancel by (simp add: step_def)
  next
    case AddWorkers
    have "0 \<le> wg s" using L N by (simp add: inv_live_def)
    then have "\<not> wg s + concurrency cfg < 0" using c by simp
    then have "inv_cause cfg (addWorkers cfg s)"
      using I L unfolding addWorkers_def inv_cause_def by (auto simp: inv_live_def)
    then show ?thesis using N AddWorkers by (simp add: step_def)
  next
    case (Vend w)
    have "inv_cause cfg (vend cfg w s)"
    proof (cases "dispatcher s \<and> nextIdx s < length (builds cfg)
         \<and> w < length (workers s) \<and> workers s ! w = Receiving")
      case True
      show ?thesis
        by (rule inv_cause_swap[OF I, of _ w "Working (nextIdx s)"])
           (use True in \<open>simp_all add: vend_def\<close>)
    next
      case False
      have "vend cfg w s = s" unfolding vend_def by (rule if_not_P[OF False])
      then show ?thesis using I by simp
    qed
    then show ?thesis using N Vend by (simp add: step_def)
  next
    case DispatcherReturn
    have "inv_cause cfg (dispatcherReturn cfg s)"
    proof (cases "dispatcher s \<and> (nextIdx s = length (builds cfg) \<or> ctxDone s)")
      case True
      have "result (wgDone (s\<lparr>dispatcher := False\<rparr>)) = None"
        by (rule wgDone_quiet[OF L N c]) (use True N in simp_all)
      then have "inv_cause cfg (wgDone (s\<lparr>dispatcher := False\<rparr>))"
        using N by (intro inv_cause_frame[OF I]) simp_all
      then show ?thesis using True by (simp add: dispatcherReturn_def)
    next
      case False
      have "dispatcherReturn cfg s = s" unfolding dispatcherReturn_def by (rule if_not_P[OF False])
      then show ?thesis using I by simp
    qed
    then show ?thesis using N DispatcherReturn by (simp add: step_def)
  next
    case (SeeClosed w)
    have "inv_cause cfg (seeClosed w s)"
    proof (cases "\<not> dispatcher s \<and> w < length (workers s) \<and> workers s ! w = Receiving")
      case True
      show ?thesis
        by (rule inv_cause_swap[OF I, of _ w "Reporting None"])
           (use True in \<open>simp_all add: seeClosed_def\<close>)
    next
      case False
      have "seeClosed w s = s" unfolding seeClosed_def by (rule if_not_P[OF False])
      then show ?thesis using I by simp
    qed
    then show ?thesis using N SeeClosed by (simp add: step_def)
  next
    case (Quit w)
    have "inv_cause cfg (quit w s)"
    proof (cases "ctxDone s \<and> w < length (workers s)
         \<and> (case workers s ! w of Receiving \<Rightarrow> True | Reporting eo \<Rightarrow> True | _ \<Rightarrow> False)")
      case True
      then have a: "w < length (workers s)" "activeW (workers s ! w) = 1"
        by (auto split: worker.splits)
      have r: "result (wgDone (s\<lparr>workers := (workers s)[w := Gone]\<rparr>)) = None"
        by (rule wgDone_quiet[OF L N c]) (use a N in auto)
      have "inv_cause cfg (wgDone (s\<lparr>workers := (workers s)[w := Gone]\<rparr>))"
        by (rule inv_cause_swap[OF I, of _ w Gone]) (use r N in simp_all)
      then show ?thesis using True by (simp add: quit_def)
    next
      case False
      have "quit w s = s" unfolding quit_def by (rule if_not_P[OF False])
      then show ?thesis using I by simp
    qed
    then show ?thesis using N Quit by (simp add: step_def)
  next
    case (Finish w)
    have "inv_cause cfg (finish cfg w s)"
    proof (cases "w < length (workers s)
                  \<and> (\<exists>idx. workers s ! w = Working idx \<and> idx < length (builds cfg))")
      case True
      then obtain idx where w: "w < length (workers s)" and k: "workers s ! w = Working idx"
        and i: "idx < length (builds cfg)" by blast
      show ?thesis
      proof (cases "readB cfg (builds cfg ! idx)")
        case (Inl err)
        show ?thesis
          by (rule inv_cause_swap[OF I, of _ w "Reporting (Some err)"])
             (use w k i Inl in \<open>auto simp: finish_def Let_def\<close>)
      next
        case (Inr col)
        show ?thesis
          by (rule inv_cause_swap[OF I, of _ w Receiving])
             (use w k i Inr in \<open>simp_all add: finish_def Let_def\<close>)
      qed
    next
      case False
      then have "finish cfg w s = s" by (auto simp: finish_def split: worker.splits)
      then show ?thesis using I by simp
    qed
    then show ?thesis using N Finish by (simp add: step_def)
  next
    case (Report w)
    have "inv_cause cfg (report_ec w s)"
    proof (cases "phase s = Draining \<and> 0 < remaining s \<and> w < length (workers s)
              \<and> (\<exists>eo. workers s ! w = Reporting eo)")
      case True
      then obtain eo where p: "phase s = Draining" "0 < remaining s" and w: "w < length (workers s)"
        and k: "workers s ! w = Reporting eo" by blast
      have a: "\<exists>w<length (workers s). activeW (workers s ! w) = 1" using w k by auto
      show ?thesis
      proof (cases eo)
        case None
        have r: "result (wgDone (s\<lparr>workers := (workers s)[w := Reported],
                                     remaining := remaining s - 1\<rparr>)) = None"
          by (rule wgDone_quiet[OF L N c]) (use a N in auto)
        have "inv_cause cfg (wgDone (s\<lparr>workers := (workers s)[w := Reported],
                                       remaining := remaining s - 1\<rparr>))"
          by (rule inv_cause_swap[OF I, of _ w Reported]) (use r N in simp_all)
        then show ?thesis using p w k None by (simp add: report_ec_def)
      next
        case (Some err)
        let ?s1 = "wgDone (s\<lparr>workers := (workers s)[w := Gone]\<rparr>)"
        have r: "result ?s1 = None"
          by (rule wgDone_quiet[OF L N c]) (use a N in auto)
        have c1: "inv_cause cfg ?s1"
          by (rule inv_cause_swap[OF I, of _ w Gone]) (use r N in simp_all)
        have e: "\<exists>i<length (builds cfg). readB cfg (builds cfg ! i) = Inl err"
          using I w k Some by (auto simp: inv_cause_def)
        have "inv_cause cfg (?s1\<lparr>result := Some (Inl err)\<rparr>)"
          using c1 e unfolding inv_cause_def by auto
        then show ?thesis using p w k Some r by (simp add: report_ec_def Let_def)
      qed
    next
      case False
      then have "report_ec w s = s" by (auto simp: report_ec_def split: worker.splits)
      then show ?thesis using I by simp
    qed
    then show ?thesis using N Report by (simp add: step_def)
  next
    case DrainDone
    have "inv_cause cfg (drainDone cfg s)"
    proof (cases "phase s = Draining \<and> 0 < remaining s \<and> ctxDone s")
      case True
      then have "\<not> cancelled s" using L by (auto simp: inv_live_def)
      then have "parentDone s" using True by (simp add: ctxDone_def)
      then show ?thesis using I True unfolding inv_cause_def drainDone_def by auto
    next
      case False
      have "drainDone cfg s = s" unfolding drainDone_def by (rule if_not_P[OF False])
      then show ?thesis using I by simp
    qed
    then show ?thesis using N DrainDone by (simp add: step_def)
  next
    case Cancel
    have "inv_cause cfg (cancel s)" by (rule inv_cause_frame[OF I]) (simp_all add: cancel_def)
    then show ?thesis using N Cancel by (simp add: step_def)
  next
    case Return
    have "maxIdx s \<le> length (cols s)" using B by (simp add: inv_bounds_def)
    then have "inv_cause cfg (return s)" using I unfolding return_def inv_cause_def by auto
    then show ?thesis using N Return by (simp add: step_def)
  next
    case (Lock idx)
    have "inv_cause cfg (lock cfg idx s)" by (rule inv_cause_frame[OF I]) (simp_all add: lock_def)
    then show ?thesis using N Lock by (simp add: step_def)
  next
    case Signal
    have "inv_cause cfg (signal cfg s)"
    proof (cases "holder s")
      case None
      then show ?thesis using I by (simp add: signal_def)
    next
      case (Some idx)
      show ?thesis
      proof (cases "dispatcher s \<and> nextIdx s < length (builds cfg)")
        case True
        let ?s1 = "s\<lparr>dispatcher := False, holder := None, maxIdx := shrink idx (maxIdx s)\<rparr>"
        have "result (wgDone ?s1) = None"
          by (rule wgDone_quiet[OF L N c]) (use True N in simp_all)
        then have "inv_cause cfg (wgDone ?s1)"
          using N by (intro inv_cause_frame[OF I]) simp_all
        then show ?thesis using True Some by (simp add: signal_def)
      next
        case False
        then have "signal cfg s = s" using Some by (auto simp: signal_def)
        then show ?thesis using I by simp
      qed
    qed
    then show ?thesis using N Signal by (simp add: step_def)
  next
    case Unblock
    have "inv_cause cfg (unblock s)"
      by (rule inv_cause_frame[OF I]) (simp_all add: unblock_def split: option.splits)
    then show ?thesis using N Unblock by (simp add: step_def)
  qed
qed

lemma inv_cause_run:
  assumes c: "0 \<le> concurrency cfg"
  shows "inv_cause cfg (fold (step cfg) acts (start cfg))"
proof (induction acts rule: rev_induct)
  case Nil
  then show ?case by (simp add: inv_cause_def start_def idle_def)
next
  case (snoc a acts)
  have "inv_bounds cfg (fold (step cfg) acts (start cfg))"
    using inv_all_run[of cfg acts] by (simp add: inv_all_def)
  from inv_cause_step[OF snoc.IH inv_live_run this c] show ?case by simp
qed

lemma parentDone_step:
  "a \<noteq> ParentCancel \<Longrightarrow> parentDone (step cfg a s) = parentDone s"
  by (cases a)
     (auto simp: step_def act_defs finish_def Let_def
        split: worker.splits option.splits sum.splits)

lemma parentDone_fold:
  "ParentCancel \<notin> set acts \<Longrightarrow> parentDone (fold (step cfg) acts s) = parentDone s"
proof (induction acts arbitrary: s)
  case Nil
  then show ?case by simp
next
  case (Cons a acts)
  then have "a \<noteq> ParentCancel" "ParentCancel \<notin> set acts" by auto
  then show ?case using Cons.IH[of "step cfg a s"] parentDone_step[of a cfg s] by simp
qed

lemma run_returns:
  "\<exists>more. ParentCancel \<notin> set more
      \<and> result (fold (step cfg) (acts @ more) (start cfg)) \<noteq> None
      \<and> (0 < concurrency cfg \<and> ParentCancel \<notin> set acts
           \<and> (\<forall>b\<in>set (builds cfg). \<exists>col. readB cfg b = Inr col)
          \<longrightarrow> (\<exists>cs. result (fold (step cfg) (acts @ more) (start cfg)) = Some (Inr cs)))"
proof -
  let ?s = "fold (step cfg) acts (start cfg)"
  from run_completes[OF inv_all_run inv_live_run, of cfg acts]
  obtain more where m: "ParentCancel \<notin> set more" and r: "result (fold (step cfg) more ?s) \<noteq> None"
    by blast
  let ?t = "fold (step cfg) (acts @ more) (start cfg)"
  have t: "?t = fold (step cfg) more ?s" by simp
  have "\<exists>cs. result ?t = Some (Inr cs)"
    if c: "0 < concurrency cfg" and a: "ParentCancel \<notin> set acts"
      and ok: "\<forall>b\<in>set (builds cfg). \<exists>col. readB cfg b = Inr col"
  proof -
    have "0 \<le> concurrency cfg" using c by simp
    then have C: "inv_cause cfg ?t" by (rule inv_cause_run)
    have "ParentCancel \<notin> set (acts @ more)" using a m by simp
    then have "parentDone ?t = parentDone (start cfg)" by (rule parentDone_fold)
    then have np: "\<not> parentDone ?t" by (simp add: start_def idle_def)
    from r t obtain res where res: "result ?t = Some res" by auto
    show ?thesis
    proof (cases res)
      case (Inl e)
      then have "\<exists>i<length (builds cfg). readB cfg (builds cfg ! i) = Inl e"
        using C res np by (auto simp: inv_cause_def)
      then obtain i where "i < length (builds cfg)" "readB cfg (builds cfg ! i) = Inl e" by blast
      moreover from this(1) have "builds cfg ! i \<in> set (builds cfg)" by simp
      ultimately show ?thesis using ok by fastforce
    next
      case (Inr cs)
      then show ?thesis using res by simp
    qed
  qed
  then show ?thesis using m r t by metis
qed



text \<open>
  The deferred calls return: after any run with a \<^verbatim>\<open>concurrency\<close> that is not negative,
  and so after every return of an error, the goroutines left can move until both waits
  pass.
\<close>

lemma inv_unwind_frame:
  assumes "inv_unwind cfg s"
    and "phase s' = phase s" "wg s' = wg s" "dispatcher s' = dispatcher s"
    "cancelled s' = cancelled s" "result s' = result s" "workers s' = workers s"
  shows "inv_unwind cfg s'"
  using assms unfolding inv_unwind_def by auto

lemma working_update:
  assumes "\<forall>w<length ws. \<forall>i. ws ! w = Working i \<longrightarrow> i < n"
    and "\<forall>i. x = Working i \<longrightarrow> i < n"
  shows "\<forall>w<length (ws[k := x]). \<forall>i. ws[k := x] ! w = Working i \<longrightarrow> i < n"
proof (intro allI impI)
  fix w i assume a: "w < length (ws[k := x])" "ws[k := x] ! w = Working i"
  show "i < n"
  proof (cases "w = k")
    case True
    then show ?thesis using a assms(2) by simp
  next
    case False
    then show ?thesis using a assms(1) by simp
  qed
qed

lemma inv_unwind_swap:
  assumes I: "inv_unwind cfg s" and w: "w < length (workers s)"
    and o: "activeW (workers s ! w) = 1" and x: "activeW x = 1"
    and b: "\<forall>i. x = Working i \<longrightarrow> i < length (builds cfg)"
    and f: "phase s' = phase s" "wg s' = wg s" "dispatcher s' = dispatcher s"
    "cancelled s' = cancelled s" "result s' = result s" "workers s' = (workers s)[w := x]"
  shows "inv_unwind cfg s'"
proof -
  have sm: "int (sum_list (map activeW ((workers s)[w := x])))
            = int (sum_list (map activeW (workers s)))"
    using int_sum_update[OF w, of activeW x] o x by simp
  have wk: "\<forall>v<length ((workers s)[w := x]). \<forall>i. (workers s)[w := x] ! v = Working i
              \<longrightarrow> i < length (builds cfg)"
    by (rule working_update) (use I b in \<open>auto simp: inv_unwind_def\<close>)
  show ?thesis using I f sm wk unfolding inv_unwind_def by auto
qed

lemma inv_unwind_leave:
  assumes I: "inv_unwind cfg s" and w: "w < length (workers s)"
    and o: "activeW (workers s ! w) = 1"
  shows "inv_unwind cfg (wgDone (s\<lparr>workers := (workers s)[w := Gone]\<rparr>))"
proof -
  have sm: "int (sum_list (map activeW ((workers s)[w := Gone])))
            = int (sum_list (map activeW (workers s))) - 1"
    using int_sum_update[OF w, of activeW Gone] o by simp
  have wk: "\<forall>v<length ((workers s)[w := Gone]). \<forall>i. (workers s)[w := Gone] ! v = Working i
              \<longrightarrow> i < length (builds cfg)"
    by (rule working_update) (use I in \<open>auto simp: inv_unwind_def\<close>)
  have "1 \<le> sum_list (map activeW (workers s))" using active_le_sum[OF w] o by simp
  then have "1 \<le> wg s" using I by (simp add: inv_unwind_def)
  then show ?thesis using I sm wk unfolding inv_unwind_def
    by (auto simp: wgDone_result)
qed

lemma inv_unwind_dispatcher_leaves:
  assumes I: "inv_unwind cfg s" and d: "dispatcher s"
    and f: "phase s' = phase s" "wg s' = wg s" "cancelled s' = cancelled s"
      "result s' = result s" "workers s' = workers s" "\<not> dispatcher s'"
  shows "inv_unwind cfg (wgDone s')"
  using I d f unfolding inv_unwind_def by (auto simp: wgDone_result)

lemma inv_unwind_step:
  assumes I: "inv_unwind cfg s" and a: "a \<noteq> Return"
  shows "inv_unwind cfg (step cfg a s)"
proof -
  have N: "result s = None" and ph: "phase s = Waiting" using I by (simp_all add: inv_unwind_def)
  show ?thesis
  proof (cases a)
    case ParentCancel
    have "inv_unwind cfg (s\<lparr>parentDone := True\<rparr>)" by (rule inv_unwind_frame[OF I]) simp_all
    then show ?thesis using N ParentCancel by (simp add: step_def)
  next
    case AddWorkers
    then show ?thesis using I N ph by (simp add: step_def addWorkers_def)
  next
    case (Vend w)
    have "inv_unwind cfg (vend cfg w s)"
    proof (cases "dispatcher s \<and> nextIdx s < length (builds cfg)
         \<and> w < length (workers s) \<and> workers s ! w = Receiving")
      case True
      then have q: "vend cfg w s
          = s\<lparr>nextIdx := Suc (nextIdx s), workers := (workers s)[w := Working (nextIdx s)]\<rparr>"
        by (simp add: vend_def)
      show ?thesis unfolding q
        by (rule inv_unwind_swap[OF I, of w "Working (nextIdx s)"]) (use True in simp_all)
    next
      case False
      have "vend cfg w s = s" unfolding vend_def by (rule if_not_P[OF False])
      then show ?thesis using I by simp
    qed
    then show ?thesis using N Vend by (simp add: step_def)
  next
    case DispatcherReturn
    have "inv_unwind cfg (dispatcherReturn cfg s)"
    proof (cases "dispatcher s \<and> (nextIdx s = length (builds cfg) \<or> ctxDone s)")
      case True
      have "inv_unwind cfg (wgDone (s\<lparr>dispatcher := False\<rparr>))"
        by (rule inv_unwind_dispatcher_leaves[OF I]) (use True in simp_all)
      then show ?thesis using True by (simp add: dispatcherReturn_def)
    next
      case False
      have "dispatcherReturn cfg s = s" unfolding dispatcherReturn_def by (rule if_not_P[OF False])
      then show ?thesis using I by simp
    qed
    then show ?thesis using N DispatcherReturn by (simp add: step_def)
  next
    case (SeeClosed w)
    have "inv_unwind cfg (seeClosed w s)"
    proof (cases "\<not> dispatcher s \<and> w < length (workers s) \<and> workers s ! w = Receiving")
      case True
      then have q: "seeClosed w s = s\<lparr>workers := (workers s)[w := Reporting None]\<rparr>"
        by (simp add: seeClosed_def)
      show ?thesis unfolding q
        by (rule inv_unwind_swap[OF I, of w "Reporting None"]) (use True in simp_all)
    next
      case False
      have "seeClosed w s = s" unfolding seeClosed_def by (rule if_not_P[OF False])
      then show ?thesis using I by simp
    qed
    then show ?thesis using N SeeClosed by (simp add: step_def)
  next
    case (Quit w)
    have "inv_unwind cfg (quit w s)"
    proof (cases "ctxDone s \<and> w < length (workers s)
         \<and> (case workers s ! w of Receiving \<Rightarrow> True | Reporting eo \<Rightarrow> True | _ \<Rightarrow> False)")
      case True
      then have q: "quit w s = wgDone (s\<lparr>workers := (workers s)[w := Gone]\<rparr>)"
        by (simp add: quit_def)
      have k: "w < length (workers s)" "activeW (workers s ! w) = 1"
        using True by (auto split: worker.splits)
      show ?thesis unfolding q by (rule inv_unwind_leave[OF I k])
    next
      case False
      have "quit w s = s" unfolding quit_def by (rule if_not_P[OF False])
      then show ?thesis using I by simp
    qed
    then show ?thesis using N Quit by (simp add: step_def)
  next
    case (Finish w)
    have "inv_unwind cfg (finish cfg w s)"
    proof (cases "w < length (workers s)
                  \<and> (\<exists>idx. workers s ! w = Working idx \<and> idx < length (builds cfg))")
      case True
      then obtain idx where w: "w < length (workers s)" and k: "workers s ! w = Working idx"
        and i: "idx < length (builds cfg)" by blast
      show ?thesis
      proof (cases "readB cfg (builds cfg ! idx)")
        case (Inl err)
        show ?thesis
          by (rule inv_unwind_swap[OF I w, of "Reporting (Some err)"])
             (use w k i Inl in \<open>simp_all add: finish_def Let_def\<close>)
      next
        case (Inr col)
        show ?thesis
          by (rule inv_unwind_swap[OF I w, of Receiving])
             (use w k i Inr in \<open>simp_all add: finish_def Let_def\<close>)
      qed
    next
      case False
      then have "finish cfg w s = s" by (auto simp: finish_def split: worker.splits)
      then show ?thesis using I by simp
    qed
    then show ?thesis using N Finish by (simp add: step_def)
  next
    case (Report w)
    then show ?thesis using I N ph by (simp add: step_def report_ec_def)
  next
    case DrainDone
    then show ?thesis using I N ph by (simp add: step_def drainDone_def)
  next
    case Cancel
    then show ?thesis using I N ph by (simp add: step_def cancel_def)
  next
    case Return
    then show ?thesis using a by simp
  next
    case (Lock idx)
    have "inv_unwind cfg (lock cfg idx s)"
      by (rule inv_unwind_frame[OF I]) (simp_all add: lock_def)
    then show ?thesis using N Lock by (simp add: step_def)
  next
    case Signal
    have "inv_unwind cfg (signal cfg s)"
    proof (cases "holder s")
      case None
      then show ?thesis using I by (simp add: signal_def)
    next
      case (Some idx)
      show ?thesis
      proof (cases "dispatcher s \<and> nextIdx s < length (builds cfg)")
        case True
        have "inv_unwind cfg (wgDone (s\<lparr>dispatcher := False, holder := None,
                                        maxIdx := shrink idx (maxIdx s)\<rparr>))"
          by (rule inv_unwind_dispatcher_leaves[OF I]) (use True in simp_all)
        then show ?thesis using True Some by (simp add: signal_def)
      next
        case False
        then have "signal cfg s = s" using Some by (auto simp: signal_def)
        then show ?thesis using I by simp
      qed
    qed
    then show ?thesis using N Signal by (simp add: step_def)
  next
    case Unblock
    have "inv_unwind cfg (unblock s)"
      by (rule inv_unwind_frame[OF I]) (simp_all add: unblock_def split: option.splits)
    then show ?thesis using N Unblock by (simp add: step_def)
  qed
qed

lemma sum_inactive:
  "\<forall>w<length ws. activeW (ws ! w) \<noteq> 1 \<Longrightarrow> sum_list (map activeW ws) = 0"
proof -
  assume a: "\<forall>w<length ws. activeW (ws ! w) \<noteq> 1"
  have "\<forall>x\<in>set ws. activeW x = 0"
  proof
    fix x assume "x \<in> set ws"
    then obtain w where "w < length ws" "ws ! w = x" by (auto simp: in_set_conv_nth)
    then have "activeW x \<noteq> 1" using a by auto
    then show "activeW x = 0" by (cases x) auto
  qed
  then show ?thesis by simp
qed

lemma unwind_progress:
  assumes I: "inv_unwind cfg s"
  shows "waitsPass s
         \<or> (\<exists>a. a \<noteq> ParentCancel \<and> a \<noteq> Return \<and> phi cfg (step cfg a s) < phi cfg s)"
proof -
  have N: "result s = None" and cd: "ctxDone s"
    using I by (simp_all add: inv_unwind_def ctxDone_def)
  have st: "\<And>a. step cfg a s = (case a of
              ParentCancel \<Rightarrow> s\<lparr>parentDone := True\<rparr>
            | AddWorkers \<Rightarrow> addWorkers cfg s
            | Vend w \<Rightarrow> vend cfg w s
            | DispatcherReturn \<Rightarrow> dispatcherReturn cfg s
            | SeeClosed w \<Rightarrow> seeClosed w s
            | Quit w \<Rightarrow> quit w s
            | Finish w \<Rightarrow> finish cfg w s
            | Report w \<Rightarrow> report_ec w s
            | DrainDone \<Rightarrow> drainDone cfg s
            | Cancel \<Rightarrow> cancel s
            | Return \<Rightarrow> return s
            | Lock idx \<Rightarrow> lock cfg idx s
            | Signal \<Rightarrow> signal cfg s
            | Unblock \<Rightarrow> unblock s)"
    using N by (simp add: step_def)
  show ?thesis
  proof (cases "\<exists>w<length (workers s). activeW (workers s ! w) = 1")
    case True
    then obtain w where w: "w < length (workers s)" and k: "activeW (workers s ! w) = 1" by blast
    show ?thesis
    proof (cases "workers s ! w")
      case (Working idx)
      then have "idx < length (builds cfg)" using I w by (auto simp: inv_unwind_def)
      from finish_dec[OF w Working this]
      have "phi cfg (step cfg (Finish w) s) < phi cfg s" by (simp add: st)
      then show ?thesis by blast
    next
      case Receiving
      from quit_dec[of s w cfg] cd w Receiving
      have "phi cfg (step cfg (Quit w) s) < phi cfg s" by (simp add: st)
      then show ?thesis by blast
    next
      case (Reporting eo)
      from quit_dec[of s w cfg] cd w Reporting
      have "phi cfg (step cfg (Quit w) s) < phi cfg s" by (simp add: st)
      then show ?thesis by blast
    next
      case Reported
      then show ?thesis using k by simp
    next
      case Gone
      then show ?thesis using k by simp
    qed
  next
    case False
    then have z: "sum_list (map activeW (workers s)) = 0" by (intro sum_inactive) blast
    show ?thesis
    proof (cases "dispatcher s")
      case True
      from dispatcherReturn_dec[of s cfg] True cd
      have "phi cfg (step cfg DispatcherReturn s) < phi cfg s" by (simp add: st)
      then show ?thesis by blast
    next
      case nd: False
      show ?thesis
      proof (cases "holder s")
        case (Some idx)
        from unblock_dec[OF Some cd, of cfg]
        have "phi cfg (step cfg Unblock s) < phi cfg s" by (simp add: st)
        then show ?thesis by blast
      next
        case None
        show ?thesis
        proof (cases "waiting s")
          case (Cons idx rest)
          then have "idx \<in> set (waiting s)" by simp
          from lock_dec[of s idx cfg] None this
          have "phi cfg (step cfg (Lock idx) s) < phi cfg s" by (simp add: st)
          then show ?thesis by blast
        next
          case Nil
          have "wg s = 0" using I nd z by (simp add: inv_unwind_def)
          then show ?thesis using Nil None by (simp add: waitsPass_def)
        qed
      qed
    qed
  qed
qed

lemma unwind_completes:
  assumes I: "inv_unwind cfg s"
  shows "\<exists>more. ParentCancel \<notin> set more \<and> waitsPass (fold (step cfg) more s)"
  using I
proof (induction "phi cfg s" arbitrary: s rule: less_induct)
  case less
  from unwind_progress[OF less.prems]
  show ?case
  proof
    assume "waitsPass s"
    then have "ParentCancel \<notin> set [] \<and> waitsPass (fold (step cfg) [] s)" by simp
    then show ?thesis by blast
  next
    assume "\<exists>a. a \<noteq> ParentCancel \<and> a \<noteq> Return \<and> phi cfg (step cfg a s) < phi cfg s"
    then obtain a where a: "a \<noteq> ParentCancel" "a \<noteq> Return"
      and lt: "phi cfg (step cfg a s) < phi cfg s" by blast
    from less.hyps[OF lt inv_unwind_step[OF less.prems a(2)]]
    obtain more where "ParentCancel \<notin> set more"
      "waitsPass (fold (step cfg) more (step cfg a s))" by blast
    then have "ParentCancel \<notin> set (a # more) \<and> waitsPass (fold (step cfg) (a # more) s)"
      using a by simp
    then show ?thesis by blast
  qed
qed

lemma inv_unwind_unwinding:
  assumes L: "inv_live cfg s" and B: "inv_bounds cfg s" and c: "0 \<le> concurrency cfg"
  shows "inv_unwind cfg (unwinding s)"
proof -
  have "\<forall>w<length (workers s). \<forall>i. workers s ! w = Working i \<longrightarrow> i < length (builds cfg)"
    using B by (fastforce simp: inv_bounds_def)
  then show ?thesis using L c by (simp add: inv_unwind_def unwinding_def inv_live_def debt_def)
qed

lemma deferred_waits_pass:
  assumes c: "0 \<le> concurrency cfg"
  shows "\<exists>more. ParentCancel \<notin> set more
           \<and> waitsPass (fold (step cfg) more (unwinding (fold (step cfg) acts (start cfg))))"
proof -
  have B: "inv_bounds cfg (fold (step cfg) acts (start cfg))"
    using inv_all_run[of cfg acts] by (simp add: inv_all_def)
  from unwind_completes[OF inv_unwind_unwinding[OF inv_live_run B c]] show ?thesis .
qed


text \<open>
  C9. With \<^verbatim>\<open>concurrency\<close> zero \<^verbatim>\<open>readColumns\<close> returns the error \<^verbatim>\<open>zero readers\<close> whatever the
  other arguments and the schedule, in the state in which nothing has been started: no
  goroutine, no build read, no cap applied.
\<close>

theorem readColumns_zero_readers:
  "readColumns client convertResult grp bs stopTime maxCols perr 0 acts
     = idle\<lparr>result := Some (Inl (ErrorsNew ''zero readers''))\<rparr>
   \<and> result (readColumns client convertResult grp bs stopTime maxCols perr 0 acts)
       = Some (Inl (ErrorsNew ''zero readers''))
   \<and> goroutines (readColumns client convertResult grp bs stopTime maxCols perr 0 acts) = 0
   \<and> reads (readColumns client convertResult grp bs stopTime maxCols perr 0 acts) = []"
  by (simp add: readColumns_def idle_def)

text \<open>
  C10. With a negative \<^verbatim>\<open>concurrency\<close> \<^verbatim>\<open>readColumns\<close> never returns the error
  \<^verbatim>\<open>zero readers\<close>; unless the cap panics on a negative \<^verbatim>\<open>max\<close>, it goes past the guard and
  runs, and the dispatcher has been started.
\<close>

theorem readColumns_negative_concurrency:
  assumes neg: "conc < 0"
  shows "result (readColumns client convertResult grp bs stopTime maxCols perr conc acts)
           \<noteq> Some (Inl (ErrorsNew ''zero readers''))
       \<and> (0 \<le> maxCols \<longrightarrow>
            readColumns client convertResult grp bs stopTime maxCols perr conc acts
            = fold (step (runConfig client convertResult grp bs stopTime maxCols perr conc)) acts
                (start (runConfig client convertResult grp bs stopTime maxCols perr conc))
          \<and> 1 \<le> goroutines (readColumns client convertResult grp bs stopTime maxCols perr conc acts))"
proof (cases "0 \<le> maxCols")
  case False
  then show ?thesis using neg by (simp add: readColumns_def idle_def)
next
  case True
  let ?cfg = "runConfig client convertResult grp bs stopTime maxCols perr conc"
  let ?s = "readColumns client convertResult grp bs stopTime maxCols perr conc acts"
  have run: "?s = fold (step ?cfg) acts (start ?cfg)" using neg True readColumns_run by simp
  have I: "inv_all ?cfg ?s" unfolding run by (rule inv_all_run)
  then have E: "inv_errs ?cfg ?s" by (simp add: inv_all_def)
  have "result ?s \<noteq> Some (Inl (ErrorsNew ''zero readers''))"
  proof
    assume "result ?s = Some (Inl (ErrorsNew ''zero readers''))"
    then have "\<exists>b. readB ?cfg b = Inl (ErrorsNew ''zero readers'')"
      using E by (auto simp: inv_errs_def)
    then show False using readBuild_error_wrapped by (fastforce simp: runConfig_def)
  qed
  moreover have "1 \<le> goroutines ?s" using E by (simp add: inv_errs_def)
  ultimately show ?thesis using run by simp
qed


lemma readResult_sole:
  assumes "report d b br = Some e" and "soleFailure d b br"
  shows "readResult d b = Inl e"
proof -
  have m: "br \<in> set (arrivalOrder d)" unfolding arrivalOrder_set by (cases br) auto
  have o: "\<forall>br'\<in>set (arrivalOrder d). br' \<noteq> br \<longrightarrow> report d b br' = None"
    unfolding arrivalOrder_set using assms(2) by (auto simp: soleFailure_def)
  have dl: "deadline d = None" using assms(2) by (simp add: soleFailure_def)
  from collect_only[OF m assms(1) o dl, of 0 "newResult b"] show ?thesis
    by (simp add: readResult_def)
qed


lemma reads_step: "set (reads s) \<subseteq> set (reads (step cfg a s))"
proof (cases "result s = None")
  case False
  then show ?thesis by (simp add: step_def)
next
  case N: True
  show ?thesis
  proof (cases a)
    case (Finish w)
    have "set (reads s) \<subseteq> set (reads (finish cfg w s))"
      by (auto simp: finish_def Let_def split: worker.splits sum.splits)
    then show ?thesis using N Finish by (simp add: step_def)
  next
    case (Report w)
    have "reads (report_ec w s) = reads s"
      by (simp add: report_ec_def Let_def split: worker.splits option.splits)
    then show ?thesis using N Report by (simp add: step_def)
  next
    case Signal
    have "reads (signal cfg s) = reads s" by (simp add: signal_def split: option.splits)
    then show ?thesis using N Signal by (simp add: step_def)
  next
    case Unblock
    have "reads (unblock s) = reads s" by (simp add: unblock_def split: option.splits)
    then show ?thesis using N Unblock by (simp add: step_def)
  qed (use N in \<open>simp_all add: step_def addWorkers_def vend_def dispatcherReturn_def seeClosed_def
        quit_def drainDone_def cancel_def return_def lock_def\<close>)
qed

lemma reads_fold: "set (reads s) \<subseteq> set (reads (fold (step cfg) acts s))"
proof (induction acts arbitrary: s)
  case Nil
  then show ?case by simp
next
  case (Cons a acts)
  show ?case using reads_step[of s cfg a] Cons.IH[of "step cfg a s"] by auto
qed

lemma failed_read_aborts:
  assumes f: "readB cfg b = Inl e0"
    and m: "b \<in> set (reads (fold (step cfg) acts (start cfg)))"
  shows "\<forall>cs. result (fold (step cfg) acts (start cfg)) \<noteq> Some (Inr cs)"
    and "\<exists>more e. ParentCancel \<notin> set more
           \<and> result (fold (step cfg) (acts @ more) (start cfg)) = Some (Inl e)"
    and "\<forall>more e. ParentCancel \<notin> set (acts @ more)
           \<and> (\<forall>b'\<in>set (builds cfg). b' \<noteq> b \<longrightarrow> (\<exists>col. readB cfg b' = Inr col))
           \<and> result (fold (step cfg) (acts @ more) (start cfg)) = Some (Inl e)
           \<longrightarrow> e = e0"
proof -
  let ?s = "fold (step cfg) acts (start cfg)"
  have I: "inv_all cfg ?s" by (rule inv_all_run)
  have fl: "\<exists>b\<in>set (reads ?s). \<exists>e. readB cfg b = Inl e" using f m by blast
  show "\<forall>cs. result ?s \<noteq> Some (Inr cs)"
  proof (intro allI notI)
    fix cs assume "result ?s = Some (Inr cs)"
    from final_no_failure[OF I this] fl show False by simp
  qed
  have more: "b \<in> set (reads (fold (step cfg) (acts @ more) (start cfg)))" for more
    using m reads_fold[of ?s cfg more] by auto
  show "\<exists>more e. ParentCancel \<notin> set more
           \<and> result (fold (step cfg) (acts @ more) (start cfg)) = Some (Inl e)"
  proof -
    from run_returns[of cfg acts] obtain more where p: "ParentCancel \<notin> set more"
      and r: "result (fold (step cfg) (acts @ more) (start cfg)) \<noteq> None" by blast
    let ?t = "fold (step cfg) (acts @ more) (start cfg)"
    have It: "inv_all cfg ?t" by (rule inv_all_run)
    have "\<exists>b\<in>set (reads ?t). \<exists>e. readB cfg b = Inl e" using f more by blast
    then have nr: "\<forall>cs. result ?t \<noteq> Some (Inr cs)" using final_no_failure[OF It] by blast
    from r obtain res where res: "result ?t = Some res" by auto
    have "\<exists>e. result ?t = Some (Inl e)"
    proof (cases res)
      case (Inl e)
      then show ?thesis using res by simp
    next
      case (Inr cs)
      then show ?thesis using res nr by simp
    qed
    then show ?thesis using p by blast
  qed
  show "\<forall>more e. ParentCancel \<notin> set (acts @ more)
           \<and> (\<forall>b'\<in>set (builds cfg). b' \<noteq> b \<longrightarrow> (\<exists>col. readB cfg b' = Inr col))
           \<and> result (fold (step cfg) (acts @ more) (start cfg)) = Some (Inl e)
           \<longrightarrow> e = e0"
  proof (intro allI impI)
    fix more e
    let ?t = "fold (step cfg) (acts @ more) (start cfg)"
    assume a: "ParentCancel \<notin> set (acts @ more)
           \<and> (\<forall>b'\<in>set (builds cfg). b' \<noteq> b \<longrightarrow> (\<exists>col. readB cfg b' = Inr col))
           \<and> result ?t = Some (Inl e)"
    have ne: "workers ?s \<noteq> []" using I m by (auto simp: inv_all_def inv_failed_def)
    have "length (workers ?s) \<le> nat (concurrency cfg)"
      using I by (simp add: inv_all_def inv_bounds_def)
    then have c: "0 \<le> concurrency cfg" using ne by (cases "workers ?s") auto
    have C: "inv_cause cfg ?t" using c by (rule inv_cause_run)
    have "parentDone ?t = parentDone (start cfg)" using a by (intro parentDone_fold) simp
    then have "\<not> parentDone ?t" by (simp add: start_def idle_def)
    then obtain i where i: "i < length (builds cfg)" "readB cfg (builds cfg ! i) = Inl e"
      using C a by (auto simp: inv_cause_def)
    have "builds cfg ! i = b"
    proof (rule ccontr)
      assume "builds cfg ! i \<noteq> b"
      moreover have "builds cfg ! i \<in> set (builds cfg)" using i(1) by simp
      ultimately have "\<exists>col. readB cfg (builds cfg ! i) = Inr col" using a by blast
      then show False using i(2) by auto
    qed
    then show "e = e0" using i(2) f by simp
  qed
qed

lemma reads_run:
  assumes "b \<in> set (reads (readColumns client convertResult grp bs stopTime maxCols perr conc acts))"
  shows "conc \<noteq> 0 \<and> 0 \<le> maxCols"
  using assms by (auto simp: readColumns_def idle_def split: if_splits)

text \<open>
  C2, as amended. When \<^verbatim>\<open>readSuites\<close> fails and the chain of the error holds a storage
  error (\<^verbatim>\<open>gcs.Error\<close>), the suites branch is soft whatever path the error is bound to: it
  sends nil and records in the malformed list the path string of the error with the
  path string of the build trimmed from its front. That is the rest of the string when
  the build's path string is a prefix of it as a string (a path beneath the build, but
  also a sibling such as \<^verbatim>\<open>.../job/123/x\<close> for the build \<^verbatim>\<open>.../job/12\<close>, recorded as \<^verbatim>\<open>3/x\<close>),
  and the whole path string otherwise; and if no other branch fails and the context is
  not done, \<^verbatim>\<open>readResult\<close> returns a result with that entry. When the chain holds no
  storage error the suites branch sends the error wrapped as \<^verbatim>\<open>suites: ...\<close> and
  \<^verbatim>\<open>readResult\<close> returns an error, that wrapped error when the suites branch is the only
  one to fail and the context is not done. A run of \<^verbatim>\<open>readColumns\<close> in which that build
  was read never returns columns, whatever the schedule; it can always be completed, and
  then returns an error; and when the suites branch is the only one to fail, the parent
  context does not end and no other build of the list fails, the error returned is the
  build's, wrapped as \<^verbatim>\<open>read <path>: suites: ...\<close>.
\<close>

theorem readResult_suites_error:
  assumes err: "readSuites d = Inl err"
  shows "(\<forall>p. errorsAs_gcsError err = Some p \<longrightarrow>
            download d b SuitesB r
              = (addMalformed (stringsTrimPrefix (pathString p) (pathString (Path b)))
                   (r\<lparr>suites := []\<rparr>), None)
          \<and> (stringsHasPrefix (pathString p) (pathString (Path b)) \<longrightarrow>
               stringsTrimPrefix (pathString p) (pathString (Path b))
               = drop (length (pathString (Path b))) (pathString p))
          \<and> (\<not> stringsHasPrefix (pathString p) (pathString (Path b)) \<longrightarrow>
               stringsTrimPrefix (pathString p) (pathString (Path b)) = pathString p)
          \<and> (report d b PodInfoB = None \<and> report d b StartedB = None
               \<and> report d b FinishedB = None \<and> deadline d = None \<longrightarrow>
               (\<exists>res. readResult d b = Inr res
                  \<and> stringsTrimPrefix (pathString p) (pathString (Path b)) \<in> set (malformed res))))
       \<and> (errorsAs_gcsError err = None \<longrightarrow>
            report d b SuitesB = Some (Wrap ''suites: '' err) \<and> (\<exists>e. readResult d b = Inl e)
            \<and> (soleFailure d b SuitesB \<longrightarrow> readResult d b = Inl (Wrap ''suites: '' err))
            \<and> (\<forall>client convertResult grp bs stopTime maxCols perr conc acts.
                  client b = d
                  \<and> b \<in> set (reads (readColumns client convertResult grp bs stopTime maxCols
                                      perr conc acts)) \<longrightarrow>
                  (\<forall>cs. result (readColumns client convertResult grp bs stopTime maxCols
                                  perr conc acts) \<noteq> Some (Inr cs))
                  \<and> (\<exists>more e. ParentCancel \<notin> set more
                        \<and> result (readColumns client convertResult grp bs stopTime maxCols
                                    perr conc (acts @ more)) = Some (Inl e))
                  \<and> (\<forall>more e. ParentCancel \<notin> set (acts @ more) \<and> soleFailure d b SuitesB
                        \<and> (\<forall>b'\<in>set (capBuilds maxCols bs). b' \<noteq> b \<longrightarrow>
                              (\<exists>col. readBuild client convertResult grp b' = Inr col))
                        \<and> result (readColumns client convertResult grp bs stopTime maxCols
                                    perr conc (acts @ more)) = Some (Inl e)
                        \<longrightarrow> e = Wrap (''read '' @ pathString (Path b) @ '': '')
                                   (Wrap ''suites: '' err))))"
proof (cases "errorsAs_gcsError err")
  case None
  have rep: "report d b SuitesB = Some (Wrap ''suites: '' err)"
    using err None by (simp add: report_def)
  from readResult_hard[OF rep] obtain e' where e': "readResult d b = Inl e'" by blast
  have sole: "soleFailure d b SuitesB \<longrightarrow> readResult d b = Inl (Wrap ''suites: '' err)"
    using readResult_sole[OF rep] by blast
  have run: "\<forall>client convertResult grp bs stopTime maxCols perr conc acts.
                  client b = d
                  \<and> b \<in> set (reads (readColumns client convertResult grp bs stopTime maxCols
                                      perr conc acts)) \<longrightarrow>
                  (\<forall>cs. result (readColumns client convertResult grp bs stopTime maxCols
                                  perr conc acts) \<noteq> Some (Inr cs))
                  \<and> (\<exists>more e. ParentCancel \<notin> set more
                        \<and> result (readColumns client convertResult grp bs stopTime maxCols
                                    perr conc (acts @ more)) = Some (Inl e))
                  \<and> (\<forall>more e. ParentCancel \<notin> set (acts @ more) \<and> soleFailure d b SuitesB
                        \<and> (\<forall>b'\<in>set (capBuilds maxCols bs). b' \<noteq> b \<longrightarrow>
                              (\<exists>col. readBuild client convertResult grp b' = Inr col))
                        \<and> result (readColumns client convertResult grp bs stopTime maxCols
                                    perr conc (acts @ more)) = Some (Inl e)
                        \<longrightarrow> e = Wrap (''read '' @ pathString (Path b) @ '': '')
                                   (Wrap ''suites: '' err))"
  proof (intro allI impI)
    fix client :: "Build \<Rightarrow> downloads" and convertResult :: converter and grp bs stopTime maxCols
      perr conc acts
    let ?R = "readColumns client convertResult grp bs stopTime maxCols perr conc"
    let ?cfg = "runConfig client convertResult grp bs stopTime maxCols perr conc"
    assume a: "client b = d \<and> b \<in> set (reads (?R acts))"
    then have cb: "client b = d" and m: "b \<in> set (reads (?R acts))" by blast+
    have ok: "conc \<noteq> 0 \<and> 0 \<le> maxCols" using reads_run[OF m] .
    then have run: "\<And>xs. ?R xs = fold (step ?cfg) xs (start ?cfg)" using readColumns_run by simp
    have bb: "builds ?cfg = capBuilds maxCols bs"
      and rb: "readB ?cfg = readBuild client convertResult grp" by (simp_all add: runConfig_def)
    have f: "readB ?cfg b = Inl (Wrap (''read '' @ pathString (Path b) @ '': '') e')"
      using e' cb by (simp add: runConfig_def readBuild_def)
    have m': "b \<in> set (reads (fold (step ?cfg) acts (start ?cfg)))" using m unfolding run .
    note fr = failed_read_aborts[OF f m']
    have 1: "\<forall>cs. result (?R acts) \<noteq> Some (Inr cs)" using fr(1) unfolding run .
    have 2: "\<exists>more e. ParentCancel \<notin> set more \<and> result (?R (acts @ more)) = Some (Inl e)"
      using fr(2) unfolding run .
    have 3: "\<forall>more e. ParentCancel \<notin> set (acts @ more) \<and> soleFailure d b SuitesB
                        \<and> (\<forall>b'\<in>set (capBuilds maxCols bs). b' \<noteq> b \<longrightarrow>
                              (\<exists>col. readBuild client convertResult grp b' = Inr col))
                        \<and> result (?R (acts @ more)) = Some (Inl e)
                        \<longrightarrow> e = Wrap (''read '' @ pathString (Path b) @ '': '')
                                   (Wrap ''suites: '' err)"
    proof (intro allI impI)
      fix more e
      assume h: "ParentCancel \<notin> set (acts @ more) \<and> soleFailure d b SuitesB
                        \<and> (\<forall>b'\<in>set (capBuilds maxCols bs). b' \<noteq> b \<longrightarrow>
                              (\<exists>col. readBuild client convertResult grp b' = Inr col))
                        \<and> result (?R (acts @ more)) = Some (Inl e)"
      then have "e' = Wrap ''suites: '' err" using sole e' by simp
      moreover have "e = Wrap (''read '' @ pathString (Path b) @ '': '') e'"
        using fr(3)[rule_format, of more e] h unfolding run bb rb by blast
      ultimately show "e = Wrap (''read '' @ pathString (Path b) @ '': '') (Wrap ''suites: '' err)"
        by simp
    qed
    show "(\<forall>cs. result (?R acts) \<noteq> Some (Inr cs))
          \<and> (\<exists>more e. ParentCancel \<notin> set more \<and> result (?R (acts @ more)) = Some (Inl e))
          \<and> (\<forall>more e. ParentCancel \<notin> set (acts @ more) \<and> soleFailure d b SuitesB
                        \<and> (\<forall>b'\<in>set (capBuilds maxCols bs). b' \<noteq> b \<longrightarrow>
                              (\<exists>col. readBuild client convertResult grp b' = Inr col))
                        \<and> result (?R (acts @ more)) = Some (Inl e)
                        \<longrightarrow> e = Wrap (''read '' @ pathString (Path b) @ '': '')
                                   (Wrap ''suites: '' err))"
      by (rule conjI[OF 1 conjI[OF 2 3]])
  qed
  have e: "\<exists>e. readResult d b = Inl e" using e' by blast
  have H: "report d b SuitesB = Some (Wrap ''suites: '' err) \<and> (\<exists>e. readResult d b = Inl e)
            \<and> (soleFailure d b SuitesB \<longrightarrow> readResult d b = Inl (Wrap ''suites: '' err))
            \<and> (\<forall>client convertResult grp bs stopTime maxCols perr conc acts.
                  client b = d
                  \<and> b \<in> set (reads (readColumns client convertResult grp bs stopTime maxCols
                                      perr conc acts)) \<longrightarrow>
                  (\<forall>cs. result (readColumns client convertResult grp bs stopTime maxCols
                                  perr conc acts) \<noteq> Some (Inr cs))
                  \<and> (\<exists>more e. ParentCancel \<notin> set more
                        \<and> result (readColumns client convertResult grp bs stopTime maxCols
                                    perr conc (acts @ more)) = Some (Inl e))
                  \<and> (\<forall>more e. ParentCancel \<notin> set (acts @ more) \<and> soleFailure d b SuitesB
                        \<and> (\<forall>b'\<in>set (capBuilds maxCols bs). b' \<noteq> b \<longrightarrow>
                              (\<exists>col. readBuild client convertResult grp b' = Inr col))
                        \<and> result (readColumns client convertResult grp bs stopTime maxCols
                                    perr conc (acts @ more)) = Some (Inl e)
                        \<longrightarrow> e = Wrap (''read '' @ pathString (Path b) @ '': '')
                                   (Wrap ''suites: '' err)))"
    by (rule conjI[OF rep conjI[OF e conjI[OF sole run]]])
  show ?thesis
  proof (rule conjI, goal_cases)
    case 1
    show ?case using None by simp
  next
    case 2
    show ?case by (intro impI) (rule H)
  qed
next
  case (Some p)
  let ?name = "stringsTrimPrefix (pathString p) (pathString (Path b))"
  have dl: "\<And>r. download d b SuitesB r = (addMalformed ?name (r\<lparr>suites := []\<rparr>), None)"
    using err Some by simp
  have soft: "report d b PodInfoB = None \<and> report d b StartedB = None
               \<and> report d b FinishedB = None \<and> deadline d = None \<longrightarrow>
               (\<exists>res. readResult d b = Inr res \<and> ?name \<in> set (malformed res))"
  proof
    assume a: "report d b PodInfoB = None \<and> report d b StartedB = None
               \<and> report d b FinishedB = None \<and> deadline d = None"
    let ?F = "fold (\<lambda>br r. fst (download d b br r)) (arrivalOrder d) (newResult b)"
    have s: "report d b SuitesB = None" using err Some by (simp add: report_def)
    have all: "\<forall>br\<in>set (arrivalOrder d). report d b br = None"
      unfolding arrivalOrder_set using a s by auto
    have rr: "readResult d b = Inr (?F\<lparr>malformed := sort (malformed ?F)\<rparr>)"
      using readResult_all_soft[OF all] a by simp
    have "SuitesB \<in> set (arrivalOrder d)" unfolding arrivalOrder_set by simp
    then have "?name \<in> set (malformed ?F)"
      by (rule fold_download_malformed_mem) (use err Some in \<open>simp add: addMalformed_def\<close>)
    then show "\<exists>res. readResult d b = Inr res \<and> ?name \<in> set (malformed res)"
      using rr by simp
  qed
  show ?thesis using Some dl soft by (simp add: stringsTrimPrefix_def)
qed

text \<open>
  The theorem at a storage error bound to \<^verbatim>\<open>artifacts/junit.xml\<close> beneath the build; at a
  storage error bound to \<^verbatim>\<open>gs://bucket/logs/job/123/x\<close> for the build
  \<^verbatim>\<open>gs://bucket/logs/job/12\<close>, which is not beneath the build and is recorded as \<^verbatim>\<open>3/x\<close>; and
  at a download error that is no storage error, which \<^verbatim>\<open>readResult\<close> returns wrapped and
  the run of one reader returns wrapped once more.
\<close>

theorem readResult_suites_error_witness:
  "readResult
     \<lparr>fetchPodInfo = Fetched ''pod'', fetchStarted = Fetched ''st'', fetchFinished = Fetched ''fin'',
      listArtifacts = None,
      downloadSuites = Some (GcsError \<lparr>bucket = ''bucket'', object = ''logs/job/12/artifacts/junit.xml''\<rparr>),
      suitesEvents = [ListReport, DownloadReport],
      arrival = [], deadline = None, ctxErr = Canceled\<rparr>
     \<lparr>Path = \<lparr>bucket = ''bucket'', object = ''logs/job/12/''\<rparr>, Job = ''job'', BuildID = ''12''\<rparr>
   = Inr \<lparr>podInfo = ''pod'', started = ''st'', finished = ''fin'', suites = [],
          job = ''job'', build = ''12'', malformed = [''artifacts/junit.xml'']\<rparr>
   \<and> readResult
     \<lparr>fetchPodInfo = Fetched ''pod'', fetchStarted = Fetched ''st'', fetchFinished = Fetched ''fin'',
      listArtifacts = None,
      downloadSuites = Some (GcsError \<lparr>bucket = ''bucket'', object = ''logs/job/123/x''\<rparr>),
      suitesEvents = [ListReport, DownloadReport],
      arrival = [], deadline = None, ctxErr = Canceled\<rparr>
     \<lparr>Path = \<lparr>bucket = ''bucket'', object = ''logs/job/12''\<rparr>, Job = ''job'', BuildID = ''12''\<rparr>
   = Inr \<lparr>podInfo = ''pod'', started = ''st'', finished = ''fin'', suites = [],
          job = ''job'', build = ''12'', malformed = [''3/x'']\<rparr>
   \<and> readResult (exSuitesFailing (exBuild ''0'')) (exBuild ''0'')
     = Inl (Wrap ''suites: '' (Wrap ''download: '' (ErrorsNew ''boom'')))
   \<and> result (readColumns exSuitesFailing exConvert exGroup [exBuild ''0''] (timeUnix 0 0) 50
               Canceled 1 [AddWorkers, Vend 0, Finish 0, Report 0])
     = Some (Inl (Wrap ''read gs://bucket/logs/job/0: ''
                   (Wrap ''suites: '' (Wrap ''download: '' (ErrorsNew ''boom'')))))"
proof -
  let ?p = "\<lparr>bucket = ''bucket'', object = ''logs/job/12/artifacts/junit.xml''\<rparr>"
  let ?d = "\<lparr>fetchPodInfo = Fetched ''pod'', fetchStarted = Fetched ''st'', fetchFinished = Fetched ''fin'',
      listArtifacts = None, downloadSuites = Some (GcsError ?p),
      suitesEvents = [ListReport, DownloadReport],
      arrival = [], deadline = None, ctxErr = Canceled\<rparr>"
  let ?b = "\<lparr>Path = \<lparr>bucket = ''bucket'', object = ''logs/job/12/''\<rparr>, Job = ''job'', BuildID = ''12''\<rparr>"
  have e: "readSuites ?d = Inl (Wrap ''download: '' (GcsError ?p))"
    by (simp add: readSuites_def numeral_2_eq_2)
  have "\<exists>res. readResult ?d ?b = Inr res
          \<and> stringsTrimPrefix (pathString ?p) (pathString (Path ?b)) \<in> set (malformed res)"
    using readResult_suites_error[OF e, of ?b] by (simp add: report_def)
  moreover have "readResult ?d ?b = Inr \<lparr>podInfo = ''pod'', started = ''st'', finished = ''fin'',
          suites = [], job = ''job'', build = ''12'', malformed = [''artifacts/junit.xml'']\<rparr>"
    by (simp add: readResult_def arrivalOrder_def newResult_def addMalformed_def e
          stringsTrimPrefix_def stringsHasPrefix_def pathString_def)
  ultimately have beneath: "readResult ?d ?b = Inr \<lparr>podInfo = ''pod'', started = ''st'',
          finished = ''fin'', suites = [], job = ''job'', build = ''12'',
          malformed = [''artifacts/junit.xml'']\<rparr>"
    by simp
  have sibling: "readResult
     \<lparr>fetchPodInfo = Fetched ''pod'', fetchStarted = Fetched ''st'', fetchFinished = Fetched ''fin'',
      listArtifacts = None,
      downloadSuites = Some (GcsError \<lparr>bucket = ''bucket'', object = ''logs/job/123/x''\<rparr>),
      suitesEvents = [ListReport, DownloadReport],
      arrival = [], deadline = None, ctxErr = Canceled\<rparr>
     \<lparr>Path = \<lparr>bucket = ''bucket'', object = ''logs/job/12''\<rparr>, Job = ''job'', BuildID = ''12''\<rparr>
   = Inr \<lparr>podInfo = ''pod'', started = ''st'', finished = ''fin'', suites = [],
          job = ''job'', build = ''12'', malformed = [''3/x'']\<rparr>"
    by (simp add: readResult_def arrivalOrder_def newResult_def addMalformed_def readSuites_def
          numeral_2_eq_2 stringsTrimPrefix_def stringsHasPrefix_def pathString_def)
  let ?b0 = "exBuild ''0''"
  have e0: "readSuites (exSuitesFailing ?b0) = Inl (Wrap ''download: '' (ErrorsNew ''boom''))"
    by (simp add: readSuites_def exSuitesFailing_def exDownloads_def numeral_2_eq_2)
  have n: "errorsAs_gcsError (Wrap ''download: '' (ErrorsNew ''boom'')) = None" by simp
  have sole: "soleFailure (exSuitesFailing ?b0) ?b0 SuitesB" by code_simp
  from readResult_suites_error[OF e0, of ?b0, THEN conjunct2, rule_format, OF n]
  have "soleFailure (exSuitesFailing ?b0) ?b0 SuitesB \<longrightarrow>
          readResult (exSuitesFailing ?b0) ?b0
          = Inl (Wrap ''suites: '' (Wrap ''download: '' (ErrorsNew ''boom'')))"
    by blast
  then have hard: "readResult (exSuitesFailing ?b0) ?b0
          = Inl (Wrap ''suites: '' (Wrap ''download: '' (ErrorsNew ''boom'')))"
    using sole by blast
  have run: "result (readColumns exSuitesFailing exConvert exGroup [exBuild ''0''] (timeUnix 0 0) 50
               Canceled 1 [AddWorkers, Vend 0, Finish 0, Report 0])
     = Some (Inl (Wrap ''read gs://bucket/logs/job/0: ''
                   (Wrap ''suites: '' (Wrap ''download: '' (ErrorsNew ''boom'')))))"
    by code_simp
  show ?thesis by (rule conjI[OF beneath conjI[OF sibling conjI[OF hard run]]])
qed

text \<open>
  The claim as stated fails at a storage error bound to \<^verbatim>\<open>gs://other/x\<close>, which is not
  under the build's prefix \<^verbatim>\<open>gs://bucket/logs/job/12/\<close>: \<^verbatim>\<open>readResult\<close> returns a result,
  with the whole path in the malformed list.
\<close>

theorem readResult_foreign_path_counterexample:
  "readResult
     \<lparr>fetchPodInfo = Fetched ''pod'', fetchStarted = Fetched ''st'', fetchFinished = Fetched ''fin'',
      listArtifacts = None,
      downloadSuites = Some (GcsError \<lparr>bucket = ''other'', object = ''x''\<rparr>),
      suitesEvents = [ListReport, DownloadReport],
      arrival = [], deadline = None, ctxErr = Canceled\<rparr>
     \<lparr>Path = \<lparr>bucket = ''bucket'', object = ''logs/job/12/''\<rparr>, Job = ''job'', BuildID = ''12''\<rparr>
   = Inr \<lparr>podInfo = ''pod'', started = ''st'', finished = ''fin'', suites = [],
          job = ''job'', build = ''12'', malformed = [''gs://other/x'']\<rparr>
   \<and> \<not> stringsHasPrefix (pathString \<lparr>bucket = ''other'', object = ''x''\<rparr>)
         (pathString \<lparr>bucket = ''bucket'', object = ''logs/job/12/''\<rparr>)"
  by (simp add: readResult_def arrivalOrder_def newResult_def addMalformed_def readSuites_def
        numeral_2_eq_2 stringsTrimPrefix_def stringsHasPrefix_def pathString_def)



text \<open>
  The C10 theorem at \<^verbatim>\<open>concurrency = -2\<close>: \<^verbatim>\<open>wg.Add(-2)\<close> finds the counter at 1 and panics.
\<close>

theorem readColumns_negative_concurrency_witness:
  "result (readColumns (\<lambda>b. exDownloads) exConvert exGroup [exBuild ''0''] (timeUnix 0 0) 50
             Canceled (- 2) [AddWorkers])
     = Some (Inl (Panic ''sync: negative WaitGroup counter''))
   \<and> result (readColumns (\<lambda>b. exDownloads) exConvert exGroup [exBuild ''0''] (timeUnix 0 0) 50
             Canceled (- 2) [AddWorkers])
     \<noteq> Some (Inl (ErrorsNew ''zero readers''))
   \<and> 1 \<le> goroutines (readColumns (\<lambda>b. exDownloads) exConvert exGroup [exBuild ''0'']
             (timeUnix 0 0) 50 Canceled (- 2) [AddWorkers])"
proof -
  have n: "(- 2 :: int) < 0" by simp
  have e: "result (readColumns (\<lambda>b. exDownloads) exConvert exGroup [exBuild ''0''] (timeUnix 0 0) 50
             Canceled (- 2) [AddWorkers])
     = Some (Inl (Panic ''sync: negative WaitGroup counter''))"
    by code_simp
  have m: "(0::int) \<le> 50" by simp
  from readColumns_negative_concurrency[OF n, of "\<lambda>b. exDownloads" exConvert exGroup
      "[exBuild ''0'']" "timeUnix 0 0" 50 Canceled "[AddWorkers]"] m
  have "result (readColumns (\<lambda>b. exDownloads) exConvert exGroup [exBuild ''0''] (timeUnix 0 0) 50
             Canceled (- 2) [AddWorkers])
     \<noteq> Some (Inl (ErrorsNew ''zero readers''))
   \<and> 1 \<le> goroutines (readColumns (\<lambda>b. exDownloads) exConvert exGroup [exBuild ''0'']
             (timeUnix 0 0) 50 Canceled (- 2) [AddWorkers])"
    by blast
  then show ?thesis using e by blast
qed


end
